theory Spec2Isabelle
  imports Main
begin

unbundle bit_operations_syntax

section \<open>Strings\<close>

text \<open>
  A JavaScript string is a sequence of UTF-16 code units; the model keeps each code unit
  as a natural number. \<open>str\<close> turns an Isabelle literal into such a string.
\<close>

type_synonym jsstring = "nat list"

definition str :: "string \<Rightarrow> jsstring" where
  "str s = map of_char s"

text \<open>\<open>s.startsWith(p)\<close>, \<open>s.slice(a, b)\<close>, \<open>s.slice(a)\<close> is \<open>drop a s\<close>,
  \<open>s.substr(a, n)\<close>, and \<open>s[i]\<close> (\<open>None\<close> for \<open>undefined\<close>).\<close>

definition startsWith :: "jsstring \<Rightarrow> jsstring \<Rightarrow> bool" where
  "startsWith source searchString = (take (length searchString) source = searchString)"

definition slice :: "jsstring \<Rightarrow> nat \<Rightarrow> nat \<Rightarrow> jsstring" where
  "slice s a b = take (b - a) (drop a s)"

definition substr :: "jsstring \<Rightarrow> nat \<Rightarrow> nat \<Rightarrow> jsstring" where
  "substr s a n = take n (drop a s)"

definition charAt :: "jsstring \<Rightarrow> nat \<Rightarrow> nat option" where
  "charAt s i = (case drop i s of [] \<Rightarrow> None | c # cs \<Rightarrow> Some c)"

text \<open>\<open>s.indexOf(p)\<close> from the start of \<open>s\<close>; \<open>None\<close> is JavaScript's \<open>-1\<close>.\<close>

fun indexOf0 :: "jsstring \<Rightarrow> jsstring \<Rightarrow> nat option" where
  "indexOf0 [] p = (if p = [] then Some 0 else None)"
| "indexOf0 (c # cs) p =
     (if startsWith (c # cs) p then Some 0 else map_option Suc (indexOf0 cs p))"

text \<open>\<open>s.indexOf(p, from)\<close>: the start index is clamped to the length of \<open>s\<close>.\<close>

definition indexOf :: "jsstring \<Rightarrow> jsstring \<Rightarrow> nat \<Rightarrow> nat option" where
  "indexOf s p from =
     map_option (\<lambda>i. i + min from (length s)) (indexOf0 (drop from s) p)"

section \<open>Positions and source locations\<close>

record Position =
  offset :: nat
  line :: nat
  column :: nat

record SourceLocation =
  loc_start :: Position
  loc_end :: Position
  loc_source :: jsstring

text \<open>
  Modelled from the spec: \<open>advancePositionWithMutation\<close> and \<open>advancePositionWithClone\<close>
  are imported from \<open>./utils\<close>, which is not among the sources. The spec (4.1) says the
  advance walks the next \<open>n\<close> characters of the given string, with line + 1 and the column
  reset to 1 on a newline and column + 1 otherwise, and adds \<open>n\<close> to the offset. A position
  past the end of the string holds no newline, so it counts as an ordinary character.
  The model returns the advanced position; the clone differs from the mutation only in
  leaving its argument alone, which a pure function does anyway.
\<close>

primrec walkChars :: "nat \<times> nat \<Rightarrow> jsstring \<Rightarrow> nat \<times> nat" where
  "walkChars lc [] = lc"
| "walkChars lc (c # cs) =
     walkChars (if c = 10 then (fst lc + 1, 1) else (fst lc, snd lc + 1)) cs"

definition advancePositionWithMutation ::
  "'a Position_scheme \<Rightarrow> jsstring \<Rightarrow> nat \<Rightarrow> 'a Position_scheme" where
  "advancePositionWithMutation pos source numberOfCharacters =
     (case walkChars (line pos, column pos) (take numberOfCharacters source) of
        (l, c) \<Rightarrow>
          pos\<lparr>offset := offset pos + numberOfCharacters,
              line := l,
              column := c + (numberOfCharacters - length source)\<rparr>)"

definition advancePositionWithClone :: "Position \<Rightarrow> jsstring \<Rightarrow> nat \<Rightarrow> Position" where
  "advancePositionWithClone pos source numberOfCharacters =
     advancePositionWithMutation pos source numberOfCharacters"

section \<open>The syntax tree\<close>

type_synonym Namespace = nat

definition Namespaces_HTML :: Namespace where
  "Namespaces_HTML = 0"

datatype ElementTypes =
  ElementTypes_ELEMENT | ElementTypes_COMPONENT | ElementTypes_SLOT | ElementTypes_TEMPLATE

datatype TextModes = DATA | RCDATA | RAWTEXT | CDATA | ATTRIBUTE_VALUE

datatype ExpressionNode =
  SIMPLE_EXPRESSION (exp_content: jsstring) (exp_isStatic: bool) (exp_loc: SourceLocation)

datatype TextNode =
  TextNode (text_content: jsstring) (text_isEmpty: bool) (text_loc: SourceLocation)

datatype Prop =
  ATTRIBUTE (attr_name: jsstring) (attr_value: "TextNode option") (attr_loc: SourceLocation)
| DIRECTIVE (dir_name: jsstring) (dir_exp: "ExpressionNode option")
    (dir_arg: "ExpressionNode option") (dir_modifiers: "jsstring list")
    (dir_loc: SourceLocation)

datatype TemplateChildNode =
  ELEMENT (ns: Namespace) (tag: jsstring) (tagType: ElementTypes) (props: "Prop list")
    (isSelfClosing: bool) (children: "TemplateChildNode list") (element_loc: SourceLocation)
| TEXT TextNode
| COMMENT (comment_content: jsstring) (comment_loc: SourceLocation)
| INTERPOLATION (interpolation_content: ExpressionNode) (interpolation_loc: SourceLocation)

fun loc :: "TemplateChildNode \<Rightarrow> SourceLocation" where
  "loc (ELEMENT n t ty ps sc cs l) = l"
| "loc (TEXT t) = text_loc t"
| "loc (COMMENT c l) = l"
| "loc (INTERPOLATION e l) = l"

text \<open>The root node; its other fields (helpers, components, directives, hoists,
  codegenNode) are constant and empty after parsing.\<close>

datatype RootNode =
  ROOT (root_children: "TemplateChildNode list") (root_loc: SourceLocation)

section \<open>Diagnostics, options and the parser context\<close>

datatype ErrorCodes =
  ABRUPT_CLOSING_OF_EMPTY_COMMENT
| ABSENCE_OF_DIGITS_IN_NUMERIC_CHARACTER_REFERENCE
| CDATA_IN_HTML_CONTENT
| CHARACTER_REFERENCE_OUTSIDE_UNICODE_RANGE
| CONTROL_CHARACTER_REFERENCE
| DUPLICATE_ATTRIBUTE
| END_TAG_WITH_ATTRIBUTES
| END_TAG_WITH_TRAILING_SOLIDUS
| EOF_BEFORE_TAG_NAME
| EOF_IN_CDATA
| EOF_IN_COMMENT
| EOF_IN_SCRIPT_HTML_COMMENT_LIKE_TEXT
| EOF_IN_TAG
| INCORRECTLY_CLOSED_COMMENT
| INCORRECTLY_OPENED_COMMENT
| INVALID_FIRST_CHARACTER_OF_TAG_NAME
| MISSING_ATTRIBUTE_VALUE
| MISSING_END_TAG_NAME
| MISSING_SEMICOLON_AFTER_CHARACTER_REFERENCE
| MISSING_WHITESPACE_BETWEEN_ATTRIBUTES
| NESTED_COMMENT
| NONCHARACTER_CHARACTER_REFERENCE
| NULL_CHARACTER_REFERENCE
| SURROGATE_CHARACTER_REFERENCE
| UNEXPECTED_CHARACTER_IN_ATTRIBUTE_NAME
| UNEXPECTED_CHARACTER_IN_UNQUOTED_ATTRIBUTE_VALUE
| UNEXPECTED_EQUALS_SIGN_BEFORE_ATTRIBUTE_NAME
| UNEXPECTED_QUESTION_MARK_INSTEAD_OF_TAG_NAME
| UNEXPECTED_SOLIDUS_IN_TAG
| UNKNOWN_NAMED_CHARACTER_REFERENCE
| X_INVALID_END_TAG
| X_MISSING_END_TAG
| X_MISSING_INTERPOLATION_END
| X_MISSING_DYNAMIC_DIRECTIVE_ARGUMENT_END

text \<open>
  Modelled from the spec: \<open>createCompilerError\<close> and \<open>defaultOnError\<close> come from
  \<open>./errors\<close>, which is not among the sources. The spec (7) gives a diagnostic as an
  error code with a location, and the sink as one that records the diagnostic and
  returns. The model keeps the diagnostics handed to the sink, in order, in the field
  \<open>errors\<close> of the context.
\<close>

record CompilerError =
  err_code :: ErrorCodes
  err_loc :: SourceLocation

record ParserOptions =
  isVoidTag :: "jsstring \<Rightarrow> bool"
  getNamespace :: "jsstring \<Rightarrow> TemplateChildNode option \<Rightarrow> Namespace"
  getTextMode :: "jsstring \<Rightarrow> Namespace \<Rightarrow> TextModes"
  delimiters :: "jsstring \<times> jsstring"
  ignoreSpaces :: bool
  namedCharacterReferences :: "(jsstring \<times> jsstring) list"

definition defaultParserOptions :: ParserOptions where
  "defaultParserOptions =
     \<lparr>isVoidTag = (\<lambda>t. False),
      getNamespace = (\<lambda>t p. Namespaces_HTML),
      getTextMode = (\<lambda>t n. DATA),
      delimiters = (str ''{{'', str ''}}''),
      ignoreSpaces = True,
      namedCharacterReferences =
        [(str ''gt;'', str ''>''), (str ''lt;'', str ''<''), (str ''amp;'', str ''&''),
         (str ''apos;'', [39]), (str ''quot;'', [34])]\<rparr>"

text \<open>
  The context extends a position by the fields of the source's \<open>ParserContext\<close>, so the
  position functions apply to it as they do in the source. Three fields belong to the
  model: \<open>errors\<close> (the sink's record), \<open>dev\<close> (the build constant \<open>__DEV__\<close>) and
  \<open>toLowerCase\<close> (the string method of the JavaScript runtime, kept as a parameter).
\<close>

record ParserContext = Position +
  options :: ParserOptions
  originalSource :: jsstring
  source :: jsstring
  maxCRNameLength :: nat
  errors :: "CompilerError list"
  dev :: bool
  toLowerCase :: "jsstring \<Rightarrow> jsstring"

definition getCursor :: "ParserContext \<Rightarrow> Position" where
  "getCursor context =
     \<lparr>offset = offset context, line = line context, column = column context\<rparr>"

definition getSelection :: "ParserContext \<Rightarrow> Position \<Rightarrow> Position option \<Rightarrow> SourceLocation" where
  "getSelection context start end_opt =
     (let e = (case end_opt of None \<Rightarrow> getCursor context | Some p \<Rightarrow> p)
      in \<lparr>loc_start = start, loc_end = e,
          loc_source = slice (originalSource context) (offset start) (offset e)\<rparr>)"

definition getNewPosition :: "ParserContext \<Rightarrow> Position \<Rightarrow> nat \<Rightarrow> Position" where
  "getNewPosition context start numberOfCharacters =
     advancePositionWithClone start
       (slice (originalSource context) (offset start) numberOfCharacters)
       numberOfCharacters"

text \<open>\<open>emitError(context, code, offset?)\<close>; an absent offset is 0, which the source's
  test \<open>if (offset)\<close> treats alike.\<close>

definition emitError :: "ParserContext \<Rightarrow> ErrorCodes \<Rightarrow> nat \<Rightarrow> ParserContext" where
  "emitError context code off =
     (let c = getCursor context;
          l = (if off \<noteq> 0 then c\<lparr>offset := offset c + off, column := column c + off\<rparr> else c)
      in context\<lparr>errors := errors context @
           [\<lparr>err_code = code,
             err_loc = \<lparr>loc_start = l, loc_end = l, loc_source = []\<rparr>\<rparr>]\<rparr>)"

section \<open>Exceptions\<close>

text \<open>
  Two things can stop the parser: an assertion of a development build, and reading a
  group of a regular expression match that is \<open>null\<close>. Modelled from the spec: \<open>assert\<close>
  comes from \<open>./utils\<close>, which is not among the sources; the spec names the asserted
  conditions as preconditions, and the model takes a failed assertion to throw when
  \<open>__DEV__\<close> holds and to do nothing otherwise.
\<close>

datatype exn = AssertionError | TypeError

definition andThen :: "exn + 'a \<Rightarrow> ('a \<Rightarrow> exn + 'b) \<Rightarrow> exn + 'b" where
  "andThen m f = (case m of Inl e \<Rightarrow> Inl e | Inr x \<Rightarrow> f x)"

definition assertFails :: "ParserContext \<Rightarrow> bool \<Rightarrow> bool" where
  "assertFails context condition = (dev context \<and> \<not> condition)"

section \<open>Character classes\<close>

definition isDigit :: "nat \<Rightarrow> bool" where
  "isDigit c = (48 \<le> c \<and> c \<le> 57)"

text \<open>\<open>[a-z]\<close> under the flag \<open>i\<close> (without the flag \<open>u\<close> only ASCII letters match).\<close>

definition isLetter :: "nat \<Rightarrow> bool" where
  "isLetter c = (65 \<le> c \<and> c \<le> 90 \<or> 97 \<le> c \<and> c \<le> 122)"

definition isHexDigit :: "nat \<Rightarrow> bool" where
  "isHexDigit c = (isDigit c \<or> 65 \<le> c \<and> c \<le> 70 \<or> 97 \<le> c \<and> c \<le> 102)"

text \<open>The class \<open>[\t\r\n\f ]\<close>.\<close>

definition isSpace :: "nat \<Rightarrow> bool" where
  "isSpace c = (c = 9 \<or> c = 13 \<or> c = 10 \<or> c = 12 \<or> c = 32)"

text \<open>The characters \<open>String.prototype.trim\<close> removes: white space and line terminators.\<close>

definition isTrimmed :: "nat \<Rightarrow> bool" where
  "isTrimmed c =
     (9 \<le> c \<and> c \<le> 13 \<or> c = 32 \<or> c = 160 \<or> c = 5760 \<or> 8192 \<le> c \<and> c \<le> 8202 \<or>
      c = 8232 \<or> c = 8233 \<or> c = 8239 \<or> c = 8287 \<or> c = 12288 \<or> c = 65279)"

definition trim :: "jsstring \<Rightarrow> jsstring" where
  "trim s = rev (dropWhile isTrimmed (rev (dropWhile isTrimmed s)))"

definition endsWithChar :: "jsstring \<Rightarrow> nat \<Rightarrow> bool" where
  "endsWithChar s c = (s \<noteq> [] \<and> last s = c)"

section \<open>Cursor and source advance\<close>

definition advanceBy :: "ParserContext \<Rightarrow> nat \<Rightarrow> exn + ParserContext" where
  "advanceBy context numberOfCharacters =
     (if assertFails context (numberOfCharacters \<le> length (source context))
      then Inl AssertionError
      else Inr ((advancePositionWithMutation context (source context) numberOfCharacters)
                  \<lparr>source := drop numberOfCharacters (source context)\<rparr>))"

definition advanceSpaces :: "ParserContext \<Rightarrow> exn + ParserContext" where
  "advanceSpaces context =
     (case takeWhile isSpace (source context) of
        [] \<Rightarrow> Inr context
      | c # cs \<Rightarrow> advanceBy context (length (c # cs)))"

section \<open>Text and entity decoder\<close>

text \<open>\<open>/&(?:#x?)?/i.exec(s)\<close>: the index of the first \<open>&\<close> and the matched text, which is
  \<open>&\<close>, \<open>&#\<close>, or \<open>&#\<close> with the \<open>x\<close> or \<open>X\<close> that follows.\<close>

fun execHead :: "jsstring \<Rightarrow> (nat \<times> jsstring) option" where
  "execHead [] = None"
| "execHead (c # cs) =
     (if c = 38 then
        Some (0, 38 # (case cs of
                         [] \<Rightarrow> []
                       | d # ds \<Rightarrow>
                           if d = 35 then
                             35 # (case ds of
                                     [] \<Rightarrow> []
                                   | e # es \<Rightarrow> if e = 120 \<or> e = 88 then [e] else [])
                           else []))
      else map_option (\<lambda>(i, h). (Suc i, h)) (execHead cs))"

text \<open>A table value that is absent or the empty string is falsy.\<close>

definition isTruthy :: "jsstring option \<Rightarrow> bool" where
  "isTruthy v = (case v of None \<Rightarrow> False | Some x \<Rightarrow> x \<noteq> [])"

text \<open>
  \<open>context.options.namedCharacterReferences[name]\<close> reads a property of an object: an entry
  of the table or, where the table has none of that name, a member that a plain object
  inherits from \<open>Object.prototype\<close>. Such a member is truthy, and \<open>text += value\<close> appends
  its conversion to a string, which for a built-in function is the text the engine gives it
  (the one of V8 is written here).
\<close>

definition objectPrototype :: "(jsstring \<times> jsstring) list" where
  "objectPrototype =
     map (\<lambda>n. (str n, str ''function '' @ str n @ str ''() { [native code] }''))
       [''__defineGetter__'', ''__defineSetter__'', ''hasOwnProperty'', ''__lookupGetter__'',
        ''__lookupSetter__'', ''isPrototypeOf'', ''propertyIsEnumerable'', ''toString'',
        ''valueOf'', ''toLocaleString''] @
     [(str ''constructor'', str ''function Object() { [native code] }''),
      (str ''__proto__'', str ''[object Object]'')]"

definition lookupProperty :: "(jsstring \<times> jsstring) list \<Rightarrow> jsstring \<Rightarrow> jsstring option" where
  "lookupProperty table name =
     (case map_of table name of Some v \<Rightarrow> Some v | None \<Rightarrow> map_of objectPrototype name)"

text \<open>The loop \<open>for (length = maxCRNameLength; !value && length > 0; --length)\<close>.\<close>

fun lookupReference ::
  "ParserContext \<Rightarrow> jsstring \<Rightarrow> jsstring option \<Rightarrow> nat \<Rightarrow> jsstring \<times> jsstring option" where
  "lookupReference context name v len =
     (if \<not> isTruthy v \<and> 0 < len then
        lookupReference context (substr (source context) 1 len)
          (lookupProperty (namedCharacterReferences (options context))
             (substr (source context) 1 len))
          (len - 1)
      else (name, v))"

declare lookupReference.simps [simp del]

definition parseNamedReference ::
  "ParserContext \<Rightarrow> TextModes \<Rightarrow> exn + (jsstring \<times> ParserContext)" where
  "parseNamedReference context mode =
     (if (case charAt (source context) 1 of None \<Rightarrow> True | Some c \<Rightarrow> isDigit c \<or> isLetter c)
      then
        (case lookupReference context [] None (maxCRNameLength context) of
           (name, v) \<Rightarrow>
             (case (if isTruthy v then v else None) of
                Some val \<Rightarrow>
                  if mode = ATTRIBUTE_VALUE \<and> \<not> endsWithChar name 59 \<and>
                     (case charAt (source context) (1 + length name) of
                        None \<Rightarrow> False
                      | Some c \<Rightarrow> c = 61 \<or> isLetter c \<or> isDigit c)
                  then andThen (advanceBy context (1 + length name))
                         (\<lambda>c. Inr (38 # name, c))
                  else andThen (advanceBy context (1 + length name))
                         (\<lambda>c. Inr (val,
                            if \<not> endsWithChar name 59
                            then emitError c MISSING_SEMICOLON_AFTER_CHARACTER_REFERENCE 0
                            else c))
              | None \<Rightarrow>
                  andThen
                    (advanceBy (emitError context UNKNOWN_NAMED_CHARACTER_REFERENCE 0)
                       (1 + length name))
                    (\<lambda>c. Inr (38 # name, c))))
      else andThen (advanceBy context 1) (\<lambda>c. Inr ([38], c)))"

text \<open>\<open>/^&#x([0-9a-f]+);?/i\<close> and \<open>/^&#([0-9]+);?/\<close> on a source that starts with the
  head: the digits and the length of the whole match.\<close>

definition execBody :: "bool \<Rightarrow> jsstring \<Rightarrow> (jsstring \<times> nat) option" where
  "execBody hex s =
     (let rest = drop (if hex then 3 else 2) s;
          ds = takeWhile (if hex then isHexDigit else isDigit) rest
      in if ds = [] then None
         else Some (ds, (if hex then 3 else 2) + length ds +
                        (if charAt rest (length ds) = Some 59 then 1 else 0)))"

definition digitValue :: "nat \<Rightarrow> nat" where
  "digitValue c = (if isDigit c then c - 48 else if 97 \<le> c then c - 87 else c - 55)"

definition parseInt :: "jsstring \<Rightarrow> nat \<Rightarrow> nat" where
  "parseInt ds radix = foldl (\<lambda>n c. n * radix + digitValue c) 0 ds"

definition CCR_REPLACEMENTS :: "(nat \<times> nat) list" where
  "CCR_REPLACEMENTS =
     [(0x80, 0x20ac), (0x82, 0x201a), (0x83, 0x0192), (0x84, 0x201e), (0x85, 0x2026),
      (0x86, 0x2020), (0x87, 0x2021), (0x88, 0x02c6), (0x89, 0x2030), (0x8a, 0x0160),
      (0x8b, 0x2039), (0x8c, 0x0152), (0x8e, 0x017d), (0x91, 0x2018), (0x92, 0x2019),
      (0x93, 0x201c), (0x94, 0x201d), (0x95, 0x2022), (0x96, 0x2013), (0x97, 0x2014),
      (0x98, 0x02dc), (0x99, 0x2122), (0x9a, 0x0161), (0x9b, 0x203a), (0x9c, 0x0153),
      (0x9e, 0x017e), (0x9f, 0x0178)]"

text \<open>The chain of tests on the parsed code point: the diagnostic, if any, and the code
  point that is appended.\<close>

definition checkCodePoint :: "nat \<Rightarrow> ErrorCodes option \<times> nat" where
  "checkCodePoint cp =
     (if cp = 0 then (Some NULL_CHARACTER_REFERENCE, 0xfffd)
      else if cp > 0x10ffff then (Some CHARACTER_REFERENCE_OUTSIDE_UNICODE_RANGE, 0xfffd)
      else if cp \<ge> 0xd800 \<and> cp \<le> 0xdfff then (Some SURROGATE_CHARACTER_REFERENCE, 0xfffd)
      else if (cp \<ge> 0xfdd0 \<and> cp \<le> 0xfdef) \<or> cp AND 0xfffe = 0xfffe
        then (Some NONCHARACTER_CHARACTER_REFERENCE, cp)
      else if (cp \<ge> 0x01 \<and> cp \<le> 0x08) \<or> cp = 0x0b \<or> (cp \<ge> 0x0d \<and> cp \<le> 0x1f) \<or>
              (cp \<ge> 0x7f \<and> cp \<le> 0x9f)
        then (Some CONTROL_CHARACTER_REFERENCE,
              (case map_of CCR_REPLACEMENTS cp of None \<Rightarrow> cp | Some r \<Rightarrow> r))
      else (None, cp))"

text \<open>\<open>String.fromCodePoint\<close> for a code point up to \<open>0x10ffff\<close>, in UTF-16.\<close>

definition fromCodePoint :: "nat \<Rightarrow> jsstring" where
  "fromCodePoint cp =
     (if cp < 0x10000 then [cp]
      else [0xd800 + (cp - 0x10000) div 0x400, 0xdc00 + (cp - 0x10000) mod 0x400])"

definition parseNumericReference ::
  "ParserContext \<Rightarrow> jsstring \<Rightarrow> exn + (jsstring \<times> ParserContext)" where
  "parseNumericReference context head =
     (case execBody (head = [38, 35, 120]) (source context) of
        None \<Rightarrow>
          andThen
            (advanceBy (emitError context ABSENCE_OF_DIGITS_IN_NUMERIC_CHARACTER_REFERENCE 0)
               (length head))
            (\<lambda>c. Inr (head, c))
      | Some (ds, len) \<Rightarrow>
          (case checkCodePoint (parseInt ds (if head = [38, 35, 120] then 16 else 10)) of
             (e, cp) \<Rightarrow>
               andThen
                 (advanceBy (case e of None \<Rightarrow> context | Some code \<Rightarrow> emitError context code 0)
                    len)
                 (\<lambda>c. Inr (fromCodePoint cp,
                    if charAt (source context) (len - 1) \<noteq> Some 59
                    then emitError c MISSING_SEMICOLON_AFTER_CHARACTER_REFERENCE 0
                    else c))))"

lemma andThen_cong [fundef_cong]:
  "m = m' \<Longrightarrow> (\<And>x. m' = Inr x \<Longrightarrow> f x = f' x) \<Longrightarrow> andThen m f = andThen m' f'"
  by (simp add: andThen_def split: sum.splits)

lemma andThen_simps [simp]:
  "andThen (Inl e) f = Inl e"
  "andThen (Inr x) f = f x"
  by (simp_all add: andThen_def)

text \<open>The continuation is not rewritten before the first computation has a value.\<close>

lemma andThen_weak_cong [cong]: "m = m' \<Longrightarrow> andThen m f = andThen m' f"
  by simp

lemma andThen_eq_Inr:
  "andThen m f = Inr y \<longleftrightarrow> (\<exists>x. m = Inr x \<and> f x = Inr y)"
  by (cases m) simp_all

text \<open>\<open>advanced c n c'\<close>: the context \<open>c'\<close> is \<open>c\<close> after \<open>n\<close> characters, with the
  options and the original source unchanged.\<close>

definition advanced :: "ParserContext \<Rightarrow> nat \<Rightarrow> ParserContext \<Rightarrow> bool" where
  "advanced c n c' \<longleftrightarrow>
     source c' = drop n (source c) \<and> offset c' = offset c + n \<and>
     options c' = options c \<and> originalSource c' = originalSource c \<and>
     maxCRNameLength c' = maxCRNameLength c \<and> dev c' = dev c \<and>
     toLowerCase c' = toLowerCase c"

lemma advanced_refl [simp]: "advanced c 0 c"
  by (simp add: advanced_def)

lemma advanced_refl_ex [simp]: "\<exists>n. advanced c n c"
  by (rule exI [of _ 0]) simp

lemma advanced_trans: "advanced c n c' \<Longrightarrow> advanced c' m c'' \<Longrightarrow> advanced c (n + m) c''"
  by (simp add: advanced_def add.commute)

lemma emitError_fields [simp]:
  "source (emitError c code off) = source c"
  "offset (emitError c code off) = offset c"
  "line (emitError c code off) = line c"
  "column (emitError c code off) = column c"
  "options (emitError c code off) = options c"
  "originalSource (emitError c code off) = originalSource c"
  "maxCRNameLength (emitError c code off) = maxCRNameLength c"
  "dev (emitError c code off) = dev c"
  "toLowerCase (emitError c code off) = toLowerCase c"
  by (simp_all add: emitError_def Let_def)

lemma emitError_codes [simp]:
  "map err_code (errors (emitError c code off)) = map err_code (errors c) @ [code]"
  by (simp add: emitError_def Let_def)

lemma advanceBy_errors: "advanceBy c n = Inr c' \<Longrightarrow> errors c' = errors c"
  by (auto simp: advanceBy_def advancePositionWithMutation_def split: if_splits prod.splits)

lemma advanceBy_zero [simp]: "advanceBy c 0 = Inr c"
  by (simp add: advanceBy_def assertFails_def advancePositionWithMutation_def)

lemma advanced_emitError [simp]: "advanced c n (emitError c' code off) = advanced c n c'"
  by (simp add: advanced_def emitError_def Let_def)

lemma advanced_emitError_left: "advanced (emitError c code off) n c' = advanced c n c'"
  by (simp add: advanced_def emitError_def Let_def)

lemma advanceBy_advanced: "advanceBy c n = Inr c' \<Longrightarrow> advanced c n c'"
  by (auto simp: advanceBy_def advancePositionWithMutation_def advanced_def
      split: if_splits prod.splits)

lemma advanced_source: "advanced c n c' \<Longrightarrow> source c' = drop n (source c)"
  by (simp add: advanced_def)

lemma execHead_index:
  "execHead s = Some (i, h) \<Longrightarrow> i < length s \<and> h \<noteq> [] \<and> length h \<le> length (drop i s)"
proof (induction s arbitrary: i h)
  case Nil
  then show ?case by simp
next
  case (Cons c cs)
  show ?case
  proof (cases "c = 38")
    case True
    with Cons.prems show ?thesis
      by (auto split: list.splits if_splits)
  next
    case False
    with Cons.prems obtain j where "execHead cs = Some (j, h)" "i = Suc j"
      by auto
    with Cons.IH show ?thesis by auto
  qed
qed

lemma parseNamedReference_advanced:
  assumes "parseNamedReference c mode = Inr (t, c')"
  shows "\<exists>n. 0 < n \<and> advanced c n c'"
proof -
  have "\<exists>m. advanceBy c (Suc m) = Inr c' \<or>
            advanceBy (emitError c UNKNOWN_NAMED_CHARACTER_REFERENCE 0) (Suc m) = Inr c' \<or>
            (\<exists>c1. advanceBy c (Suc m) = Inr c1 \<and>
                   c' = emitError c1 MISSING_SEMICOLON_AFTER_CHARACTER_REFERENCE 0)"
    using assms
    by (auto simp: parseNamedReference_def andThen_eq_Inr
        split: if_splits prod.splits option.splits)
  then show ?thesis
    by (auto dest!: advanceBy_advanced simp: advanced_emitError_left)
qed

lemma execBody_length: "execBody hex s = Some (ds, len) \<Longrightarrow> 0 < len"
  by (auto simp: execBody_def Let_def split: if_splits)

lemma parseNumericReference_advanced:
  assumes "parseNumericReference c h = Inr (t, c')" and "h \<noteq> []"
  shows "\<exists>n. 0 < n \<and> advanced c n c'"
proof -
  have "\<exists>m c0 c1. 0 < m \<and> advanced c 0 c0 \<and> advanceBy c0 m = Inr c1 \<and> advanced c1 0 c'"
  proof (cases "execBody (h = [38, 35, 120]) (source c)")
    case None
    let ?c0 = "emitError c ABSENCE_OF_DIGITS_IN_NUMERIC_CHARACTER_REFERENCE 0"
    from None assms have "advanceBy ?c0 (length h) = Inr c'"
      by (auto simp: parseNumericReference_def andThen_eq_Inr)
    moreover have "advanced c 0 ?c0" "advanced c' 0 c'" "0 < length h"
      using assms(2) by simp_all
    ultimately show ?thesis by blast
  next
    case (Some a)
    obtain ds len where a: "a = (ds, len)" by (cases a)
    obtain e cp where cc: "checkCodePoint (parseInt ds (if h = [38, 35, 120] then 16 else 10)) = (e, cp)"
      by (cases "checkCodePoint (parseInt ds (if h = [38, 35, 120] then 16 else 10))")
    from Some a have len: "0 < len" by (auto dest: execBody_length)
    let ?c0 = "case e of None \<Rightarrow> c | Some code \<Rightarrow> emitError c code 0"
    have c0: "advanced c 0 ?c0" by (cases e) simp_all
    from assms Some a cc obtain c1 where
      "advanceBy ?c0 len = Inr c1" "advanced c1 0 c'"
      by (auto simp: parseNumericReference_def andThen_eq_Inr split: if_splits)
    with len c0 show ?thesis by blast
  qed
  then obtain m c0 c1 where "0 < m" "advanced c 0 c0" "advanced c0 m c1" "advanced c1 0 c'"
    by (auto dest!: advanceBy_advanced)
  then have "advanced c m c'"
    using advanced_trans [of c 0 c0 m c1] advanced_trans [of c m c1 0 c'] by simp
  with \<open>0 < m\<close> show ?thesis by blast
qed

text \<open>The loop \<open>while (context.offset < end)\<close> of \<open>parseTextData\<close>, with the text so far.\<close>

function parseTextData_loop ::
  "ParserContext \<Rightarrow> nat \<Rightarrow> TextModes \<Rightarrow> jsstring \<Rightarrow> exn + (jsstring \<times> ParserContext)" where
  "parseTextData_loop context end_offset mode text_so_far =
     (if offset context < end_offset then
        (case (case execHead (source context) of
                 None \<Rightarrow> None
               | Some (i, h) \<Rightarrow> if offset context + i \<ge> end_offset then None else Some (i, h)) of
           None \<Rightarrow>
             andThen (advanceBy context (end_offset - offset context))
               (\<lambda>c. Inr (text_so_far @ slice (source context) 0 (end_offset - offset context), c))
         | Some (i, h) \<Rightarrow>
             andThen (advanceBy context i)
               (\<lambda>c1. andThen
                  (if h = [38] then parseNamedReference c1 mode
                   else parseNumericReference c1 h)
                  (\<lambda>(t, c2).
                     parseTextData_loop c2 end_offset mode
                       (text_so_far @ slice (source context) 0 i @ t))))
      else Inr (text_so_far, context))"
  by pat_completeness auto
termination
proof (relation "measure (\<lambda>(context, e, m, t). length (source context))", goal_cases)
  case 1
  show ?case by simp
next
  case (2 ctx end_offset mode text_so_far x2 i h c1 x t c2)
  from 2(2,3) have eh: "execHead (source ctx) = Some (i, h)"
    by (auto split: option.splits if_splits)
  from execHead_index [OF eh] have i: "i < length (source ctx)" and h: "h \<noteq> []"
    by simp_all
  from 2(4) have s1: "source c1 = drop i (source ctx)"
    by (auto dest: advanceBy_advanced advanced_source)
  from 2(5,6) h obtain n where "0 < n" "advanced c1 n c2"
    by (auto dest: parseNamedReference_advanced parseNumericReference_advanced
        split: if_splits)
  with s1 i show ?case by (simp add: advanced_def)
qed

declare parseTextData_loop.simps [simp del]

definition parseTextData ::
  "ParserContext \<Rightarrow> nat \<Rightarrow> TextModes \<Rightarrow> exn + (jsstring \<times> ParserContext)" where
  "parseTextData context len mode =
     (if mode = RAWTEXT \<or> mode = CDATA then
        andThen (advanceBy context len) (\<lambda>c. Inr (slice (source context) 0 len, c))
      else parseTextData_loop context (offset context + len) mode [])"

section \<open>Attribute parser\<close>

datatype AttributeValue =
  AttributeValue (value_content: jsstring) (value_isQuoted: bool) (value_loc: SourceLocation)

text \<open>The indices at which a global regular expression of one character class matches,
  counted from \<open>i\<close>, and one diagnostic at each of them.\<close>

fun matchIndices :: "(nat \<Rightarrow> bool) \<Rightarrow> jsstring \<Rightarrow> nat \<Rightarrow> nat list" where
  "matchIndices P [] i = []"
| "matchIndices P (c # cs) i = (if P c then i # matchIndices P cs (Suc i) else matchIndices P cs (Suc i))"

definition emitErrorsAt :: "ParserContext \<Rightarrow> ErrorCodes \<Rightarrow> nat list \<Rightarrow> ParserContext" where
  "emitErrorsAt context code idxs = foldl (\<lambda>c i. emitError c code i) context idxs"

definition parseAttributeValue ::
  "ParserContext \<Rightarrow> exn + (AttributeValue option \<times> ParserContext)" where
  "parseAttributeValue context =
     (if charAt (source context) 0 = Some 34 \<or> charAt (source context) 0 = Some 39 then
        andThen (advanceBy context 1)
          (\<lambda>c1. case indexOf (source c1) (take 1 (source context)) 0 of
                   None \<Rightarrow>
                     andThen (parseTextData c1 (length (source c1)) ATTRIBUTE_VALUE)
                       (\<lambda>(content, c2).
                          Inr (Some (AttributeValue content True
                                       (getSelection c2 (getCursor context) None)), c2))
                 | Some endIndex \<Rightarrow>
                     andThen (parseTextData c1 endIndex ATTRIBUTE_VALUE)
                       (\<lambda>(content, c2).
                          andThen (advanceBy c2 1)
                            (\<lambda>c3. Inr (Some (AttributeValue content True
                                               (getSelection c3 (getCursor context) None)), c3))))
      else
        (case takeWhile (\<lambda>c. \<not> isSpace c \<and> c \<noteq> 62) (source context) of
           [] \<Rightarrow> Inr (None, context)
         | m # ms \<Rightarrow>
             andThen
               (parseTextData
                  (emitErrorsAt context UNEXPECTED_CHARACTER_IN_UNQUOTED_ATTRIBUTE_VALUE
                     (matchIndices (\<lambda>c. c = 34 \<or> c = 39 \<or> c = 60 \<or> c = 61 \<or> c = 96) (m # ms) 0))
                  (length (m # ms)) ATTRIBUTE_VALUE)
               (\<lambda>(content, c2).
                  Inr (Some (AttributeValue content False
                               (getSelection c2 (getCursor context) None)), c2))))"

subsection \<open>The directive pattern\<close>

text \<open>
  \<open>/(?:^v-([a-z0-9-]+))?(?:(?::|^@|^#)([^\.]+))?(.+)?$/i.exec(name)\<close>. The pattern has no
  anchor at its start, so the match is searched from index 0 upwards; at one index the
  alternatives are tried in the order of a backtracking matcher: the first group from its
  longest extent down, then absent; the second likewise; the rest must reach the end of the
  name, which \<open>.\<close> does when no line terminator is in the way.
\<close>

definition isLineTerminator :: "nat \<Rightarrow> bool" where
  "isLineTerminator c = (c = 10 \<or> c = 13 \<or> c = 8232 \<or> c = 8233)"

definition isDirectiveNameChar :: "nat \<Rightarrow> bool" where
  "isDirectiveNameChar c = (isLetter c \<or> isDigit c \<or> c = 45)"

fun downFrom :: "nat \<Rightarrow> nat list" where
  "downFrom 0 = []"
| "downFrom (Suc n) = Suc n # downFrom n"

fun firstSome :: "('a \<Rightarrow> 'b option) \<Rightarrow> 'a list \<Rightarrow> 'b option" where
  "firstSome f [] = None"
| "firstSome f (x # xs) = (case f x of Some y \<Rightarrow> Some y | None \<Rightarrow> firstSome f xs)"

text \<open>The first group at index \<open>k\<close>: its text and the index after it.\<close>

definition directiveGroup1 :: "jsstring \<Rightarrow> nat \<Rightarrow> (jsstring option \<times> nat) list" where
  "directiveGroup1 name k =
     (if k = 0 \<and> (charAt name 0 = Some 118 \<or> charAt name 0 = Some 86) \<and> charAt name 1 = Some 45
      then map (\<lambda>a. (Some (substr name 2 a), 2 + a))
             (downFrom (length (takeWhile isDirectiveNameChar (drop 2 name))))
      else []) @ [(None, k)]"

definition directiveGroup2 :: "jsstring \<Rightarrow> nat \<Rightarrow> (jsstring option \<times> nat) list" where
  "directiveGroup2 name p =
     (if (case charAt name p of
            None \<Rightarrow> False
          | Some c \<Rightarrow> c = 58 \<or> (p = 0 \<and> (c = 64 \<or> c = 35)))
      then map (\<lambda>b. (Some (substr name (Suc p) b), Suc p + b))
             (downFrom (length (takeWhile (\<lambda>c. c \<noteq> 46) (drop (Suc p) name))))
      else []) @ [(None, p)]"

definition directiveMatchAt ::
  "jsstring \<Rightarrow> nat \<Rightarrow> (jsstring option \<times> jsstring option \<times> jsstring option) option" where
  "directiveMatchAt name k =
     firstSome
       (\<lambda>(g1, p).
          firstSome
            (\<lambda>(g2, q).
               if list_ex isLineTerminator (drop q name) then None
               else Some (g1, g2, if q < length name then Some (drop q name) else None))
            (directiveGroup2 name p))
       (directiveGroup1 name k)"

function execDirectiveFrom ::
  "jsstring \<Rightarrow> nat \<Rightarrow> jsstring option \<times> jsstring option \<times> jsstring option" where
  "execDirectiveFrom name k =
     (case directiveMatchAt name k of
        Some m \<Rightarrow> m
      | None \<Rightarrow> if k < length name then execDirectiveFrom name (Suc k) else (None, None, None))"
  by pat_completeness auto
termination
  by (relation "measure (\<lambda>(name, k). length name - k)") auto

declare execDirectiveFrom.simps [simp del]

definition execDirective ::
  "jsstring \<Rightarrow> jsstring option \<times> jsstring option \<times> jsstring option" where
  "execDirective name = execDirectiveFrom name 0"

text \<open>\<open>s.split('.')\<close>.\<close>

fun splitOn :: "nat \<Rightarrow> jsstring \<Rightarrow> jsstring list" where
  "splitOn d [] = [[]]"
| "splitOn d (c # cs) =
     (if c = d then [] # splitOn d cs
      else (case splitOn d cs of [] \<Rightarrow> [[c]] | x # xs \<Rightarrow> (c # x) # xs))"

subsection \<open>One attribute\<close>

text \<open>\<open>/^[^\t\r\n\f />][^\t\r\n\f />=]*/.exec(s)\<close>: the attribute name, if there is one.\<close>

definition execAttributeName :: "jsstring \<Rightarrow> jsstring option" where
  "execAttributeName s =
     (case s of
        [] \<Rightarrow> None
      | c # cs \<Rightarrow>
          if isSpace c \<or> c = 47 \<or> c = 62 then None
          else Some (c # takeWhile (\<lambda>d. \<not> isSpace d \<and> d \<noteq> 47 \<and> d \<noteq> 62 \<and> d \<noteq> 61) cs))"

text \<open>The argument of a directive (\<open>if (match[2])\<close>): the expression, and the context after
  the diagnostic of an unclosed dynamic argument.\<close>

definition directiveArgument ::
  "ParserContext \<Rightarrow> Position \<Rightarrow> jsstring \<Rightarrow> jsstring \<Rightarrow> ExpressionNode \<times> ParserContext" where
  "directiveArgument context start name a =
     (let startOffset = (case indexOf name a 0 of None \<Rightarrow> length name | Some i \<Rightarrow> i);
          l = getSelection context (getNewPosition context start startOffset)
                (Some (getNewPosition context start (startOffset + length a)))
      in if startsWith a [91] then
           (SIMPLE_EXPRESSION (substr a 1 (length a - 2)) False l,
            if \<not> endsWithChar a 93
            then emitError context X_MISSING_DYNAMIC_DIRECTIVE_ARGUMENT_END 0
            else context)
         else (SIMPLE_EXPRESSION a True l, context))"

text \<open>The location of a quoted value without its quotes.\<close>

definition unquotedLoc :: "AttributeValue \<Rightarrow> SourceLocation" where
  "unquotedLoc v =
     (let st = (loc_start (value_loc v))
                 \<lparr>offset := offset (loc_start (value_loc v)) + 1,
                  column := column (loc_start (value_loc v)) + 1\<rparr>
      in \<lparr>loc_start = st,
          loc_end = advancePositionWithClone st (value_content v) (length (value_content v)),
          loc_source = slice (loc_source (value_loc v)) 1 (length (loc_source (value_loc v)) - 1)\<rparr>)"

definition isDirectiveName :: "jsstring \<Rightarrow> bool" where
  "isDirectiveName name =
     (startsWith name [118, 45] \<or> startsWith name [58] \<or> startsWith name [64] \<or>
      startsWith name [35])"

text \<open>The node built at the end of \<open>parseAttribute\<close>, from the name, the value, the start of
  the attribute and the context after the value.\<close>

definition buildAttribute ::
  "ParserContext \<Rightarrow> Position \<Rightarrow> jsstring \<Rightarrow> AttributeValue option \<Rightarrow> Prop \<times> ParserContext" where
  "buildAttribute context start name v =
     (if isDirectiveName name then
        (case execDirective name of
           (g1, g2, g3) \<Rightarrow>
             (case (case g2 of
                      None \<Rightarrow> (None, context)
                    | Some a \<Rightarrow>
                        (case directiveArgument context start name a of
                           (e, c) \<Rightarrow> (Some e, c))) of
                (arg, c) \<Rightarrow>
                  (DIRECTIVE
                     (case g1 of
                        Some n \<Rightarrow> n
                      | None \<Rightarrow>
                          if startsWith name [58] then str ''bind''
                          else if startsWith name [64] then str ''on''
                          else str ''slot'')
                     (map_option
                        (\<lambda>x. SIMPLE_EXPRESSION (value_content x) False
                               (if value_isQuoted x then unquotedLoc x else value_loc x))
                        v)
                     arg
                     (case g3 of None \<Rightarrow> [] | Some m \<Rightarrow> splitOn 46 (substr m 1 (length m)))
                     (getSelection context start None),
                   c)))
      else
        (ATTRIBUTE name
           (map_option
              (\<lambda>x. TextNode (value_content x) (trim (value_content x) = []) (value_loc x)) v)
           (getSelection context start None),
         context))"

text \<open>The part of \<open>parseAttribute\<close> after the name: \<open>=\<close> and the value.\<close>

definition parseAttributeAssignment ::
  "ParserContext \<Rightarrow> exn + (AttributeValue option \<times> ParserContext)" where
  "parseAttributeAssignment context =
     (if startsWith (dropWhile isSpace (source context)) [61] then
        andThen (advanceSpaces context)
          (\<lambda>c1. andThen (advanceBy c1 1)
             (\<lambda>c2. andThen (advanceSpaces c2)
                (\<lambda>c3. andThen (parseAttributeValue c3)
                   (\<lambda>(v, c4). Inr (v, if v = None then emitError c4 MISSING_ATTRIBUTE_VALUE 0
                                       else c4)))))
      else Inr (None, context))"

text \<open>The diagnostics on the name of an attribute, in the order of the source: a name met
  before, a leading \<open>=\<close>, and each of \<open>"\<close>, \<open>'\<close> and \<open><\<close> in the name.\<close>

definition attributeNameErrors :: "ParserContext \<Rightarrow> jsstring list \<Rightarrow> jsstring \<Rightarrow> ParserContext" where
  "attributeNameErrors context nameSet name =
     emitErrorsAt
       ((\<lambda>c. if startsWith name [61]
             then emitError c UNEXPECTED_EQUALS_SIGN_BEFORE_ATTRIBUTE_NAME 0 else c)
          (if name \<in> set nameSet then emitError context DUPLICATE_ATTRIBUTE 0 else context))
       UNEXPECTED_CHARACTER_IN_ATTRIBUTE_NAME
       (matchIndices (\<lambda>c. c = 34 \<or> c = 39 \<or> c = 60) name 0)"

text \<open>\<open>parseAttribute(context, nameSet)\<close>; the set of names is a list without repetition,
  returned with the new name added.\<close>

definition parseAttribute ::
  "ParserContext \<Rightarrow> jsstring list \<Rightarrow> exn + ((Prop \<times> jsstring list) \<times> ParserContext)" where
  "parseAttribute context nameSet =
     (case execAttributeName (source context) of
        None \<Rightarrow> Inl (if dev context then AssertionError else TypeError)
      | Some name \<Rightarrow>
          andThen (advanceBy (attributeNameErrors context nameSet name) (length name))
            (\<lambda>c1. andThen (parseAttributeAssignment c1)
               (\<lambda>vc. Inr ((fst (buildAttribute (snd vc) (getCursor context) name (fst vc)),
                            List.insert name nameSet),
                           snd (buildAttribute (snd vc) (getCursor context) name (fst vc))))))"

subsection \<open>What the attribute parser consumes\<close>

lemma advanced_exI: "advanced c n c' \<Longrightarrow> P n \<Longrightarrow> \<exists>m. P m \<and> advanced c m c'"
  by blast

lemma emitErrorsAt_advanced [simp]: "advanced c n (emitErrorsAt c' code idxs) = advanced c n c'"
  by (induction idxs arbitrary: c') (simp_all add: emitErrorsAt_def)

lemma emitErrorsAt_advanced_left: "advanced (emitErrorsAt c code idxs) n c' = advanced c n c'"
  by (induction idxs arbitrary: c) (simp_all add: emitErrorsAt_def advanced_emitError_left)

lemma emitErrorsAt_fields [simp]:
  "source (emitErrorsAt c code idxs) = source c"
  "dev (emitErrorsAt c code idxs) = dev c"
  "offset (emitErrorsAt c code idxs) = offset c"
  using emitErrorsAt_advanced [of c 0 c code idxs] by (simp_all add: advanced_def)

lemma advanceSpaces_advanced: "advanceSpaces c = Inr c' \<Longrightarrow> \<exists>n. advanced c n c'"
  by (auto simp: advanceSpaces_def split: list.splits dest: advanceBy_advanced)

lemma parseTextData_loop_advanced:
  "parseTextData_loop c e mode t = Inr (t', c') \<Longrightarrow> \<exists>n. advanced c n c'"
proof (induction c e mode t arbitrary: t' c' rule: parseTextData_loop.induct)
  case (1 c e mode t)
  show ?case
  proof (cases "offset c < e")
    case False
    with "1.prems" have "c' = c" by (simp add: parseTextData_loop.simps)
    then show ?thesis using advanced_refl by blast
  next
    case True
    note lt = this
    let ?h = "case execHead (source c) of None \<Rightarrow> None
              | Some (i, h) \<Rightarrow> if e \<le> offset c + i then None else Some (i, h)"
    show ?thesis
    proof (cases ?h)
      case None
      with lt "1.prems" have "advanceBy c (e - offset c) = Inr c'"
        by (simp add: parseTextData_loop.simps [of c] andThen_eq_Inr)
      then show ?thesis by (blast dest: advanceBy_advanced)
    next
      case (Some ih)
      obtain i h where ih: "ih = (i, h)" by (cases ih)
      from Some ih have eh: "execHead (source c) = Some (i, h)"
        by (auto split: option.splits if_splits)
      with execHead_index have h: "h \<noteq> []" by blast
      from lt Some ih "1.prems" obtain c1 x c2 where
        c1: "advanceBy c i = Inr c1" and
        c2: "(if h = [38] then parseNamedReference c1 mode else parseNumericReference c1 h) = Inr (x, c2)" and
        rec: "parseTextData_loop c2 e mode (t @ slice (source c) 0 i @ x) = Inr (t', c')"
        by (auto simp: parseTextData_loop.simps [of c] andThen_eq_Inr)
      from "1.IH" [OF lt Some ih [symmetric] c1 c2 refl rec]
      obtain n3 where n3: "advanced c2 n3 c'" by blast
      from c2 h obtain n2 where n2: "advanced c1 n2 c2"
        by (auto dest: parseNamedReference_advanced parseNumericReference_advanced
            split: if_splits)
      from c1 have "advanced c i c1" by (rule advanceBy_advanced)
      with n2 n3 show ?thesis by (blast intro: advanced_trans)
    qed
  qed
qed

lemma parseTextData_advanced:
  "parseTextData c len mode = Inr (t, c') \<Longrightarrow> \<exists>n. advanced c n c'"
  by (auto simp: parseTextData_def andThen_eq_Inr
      dest: advanceBy_advanced parseTextData_loop_advanced split: if_splits)

lemma parseAttributeValue_advanced:
  assumes "parseAttributeValue c = Inr (v, c')"
  shows "\<exists>n. advanced c n c'"
proof (cases "charAt (source c) 0 = Some 34 \<or> charAt (source c) 0 = Some 39")
  case True
  with assms obtain c1 where c1: "advanceBy c 1 = Inr c1" and
    r: "(case indexOf (source c1) (take 1 (source c)) 0 of
           None \<Rightarrow>
             andThen (parseTextData c1 (length (source c1)) ATTRIBUTE_VALUE)
               (\<lambda>(content, c2).
                  Inr (Some (AttributeValue content True (getSelection c2 (getCursor c) None)), c2))
         | Some endIndex \<Rightarrow>
             andThen (parseTextData c1 endIndex ATTRIBUTE_VALUE)
               (\<lambda>(content, c2).
                  andThen (advanceBy c2 1)
                    (\<lambda>c3. Inr (Some (AttributeValue content True
                                       (getSelection c3 (getCursor c) None)), c3)))) = Inr (v, c')"
    unfolding parseAttributeValue_def by (auto simp: andThen_eq_Inr)
  from c1 have a1: "advanced c 1 c1" by (rule advanceBy_advanced)
  from r have "\<exists>n. advanced c1 n c'"
    by (auto simp: andThen_eq_Inr split: option.splits
        dest!: parseTextData_advanced advanceBy_advanced intro: advanced_trans)
  with a1 show ?thesis by (blast intro: advanced_trans)
next
  case False
  with assms show ?thesis
    unfolding parseAttributeValue_def
    by (auto simp: andThen_eq_Inr emitErrorsAt_advanced_left split: list.splits
        dest!: parseTextData_advanced)
qed

lemma parseAttributeAssignment_advanced:
  assumes "parseAttributeAssignment c = Inr (v, c')"
  shows "\<exists>n. advanced c n c'"
proof (cases "startsWith (dropWhile isSpace (source c)) [61]")
  case False
  with assms have "c' = c" by (simp add: parseAttributeAssignment_def)
  then show ?thesis using advanced_refl by blast
next
  case True
  with assms obtain c1 c2 c3 c4 where
    "advanceSpaces c = Inr c1" "advanceBy c1 1 = Inr c2" "advanceSpaces c2 = Inr c3"
    "parseAttributeValue c3 = Inr (v, c4)" "advanced c4 0 c'"
    by (auto simp: parseAttributeAssignment_def andThen_eq_Inr split: if_splits)
  then obtain n1 n3 n4 where
    "advanced c n1 c1" "advanced c1 1 c2" "advanced c2 n3 c3" "advanced c3 n4 c4"
    by (blast dest: advanceSpaces_advanced advanceBy_advanced parseAttributeValue_advanced)
  with \<open>advanced c4 0 c'\<close> show ?thesis by (blast intro: advanced_trans)
qed

lemma directiveArgument_advanced:
  "directiveArgument c start name a = (e, c') \<Longrightarrow> advanced c 0 c'"
  by (auto simp: directiveArgument_def Let_def split: if_splits)

lemma buildAttribute_advanced: "buildAttribute c start name v = (attr, c') \<Longrightarrow> advanced c 0 c'"
  by (auto simp: buildAttribute_def split: if_splits prod.splits option.splits
      dest: directiveArgument_advanced)

lemma execAttributeName_nonempty: "execAttributeName s = Some name \<Longrightarrow> name \<noteq> []"
  by (auto simp: execAttributeName_def split: list.splits if_splits)

lemma attributeNameErrors_advanced [simp]:
  "advanced (attributeNameErrors c nameSet name) n c' = advanced c n c'"
  by (simp add: attributeNameErrors_def emitErrorsAt_advanced_left advanced_emitError_left)

lemma parseAttribute_Inr:
  assumes "parseAttribute c nameSet = Inr (r, c')"
  shows "\<exists>name c1 v c2.
           execAttributeName (source c) = Some name \<and>
           advanceBy (attributeNameErrors c nameSet name) (length name) = Inr c1 \<and>
           parseAttributeAssignment c1 = Inr (v, c2) \<and>
           buildAttribute c2 (getCursor c) name v = (fst r, c') \<and>
           snd r = List.insert name nameSet"
  using assms
  by (auto simp: parseAttribute_def andThen_eq_Inr split: option.splits)

lemma parseAttribute_advanced:
  assumes "parseAttribute c nameSet = Inr (r, c')"
  shows "\<exists>n. 0 < n \<and> advanced c n c'"
proof -
  from parseAttribute_Inr [OF assms] obtain name c1 v c2 where
    name: "execAttributeName (source c) = Some name" and
    "advanceBy (attributeNameErrors c nameSet name) (length name) = Inr c1"
    "parseAttributeAssignment c1 = Inr (v, c2)"
    "buildAttribute c2 (getCursor c) name v = (fst r, c')"
    by blast
  then obtain n2 where
    "advanced c (length name) c1" "advanced c1 n2 c2" "advanced c2 0 c'"
    by (auto dest!: advanceBy_advanced parseAttributeAssignment_advanced buildAttribute_advanced)
  then have "advanced c (length name + n2 + 0) c'"
    by (blast intro: advanced_trans)
  moreover from name have "0 < length name"
    by (auto dest: execAttributeName_nonempty)
  ultimately show ?thesis by (intro exI [of _ "length name + n2 + 0"]) simp
qed

section \<open>Element and tag parser\<close>

datatype TagType = Start | End

text \<open>\<open>/^<\/?([a-z][^\t\r\n\f />]*)/i.exec(s)\<close>: the tag name and the length of the match.\<close>

definition execTagName :: "jsstring \<Rightarrow> (jsstring \<times> nat) option" where
  "execTagName s =
     (case s of
        [] \<Rightarrow> None
      | lt # r \<Rightarrow>
          if lt \<noteq> 60 then None
          else (case (if startsWith r [47] then drop 1 r else r) of
                  [] \<Rightarrow> None
                | c # cs \<Rightarrow>
                    if isLetter c
                    then Some (c # takeWhile (\<lambda>d. \<not> isSpace d \<and> d \<noteq> 47 \<and> d \<noteq> 62) cs,
                               (if startsWith r [47] then 2 else 1) +
                               length (c # takeWhile (\<lambda>d. \<not> isSpace d \<and> d \<noteq> 47 \<and> d \<noteq> 62) cs))
                    else None))"

definition classifyTag :: "jsstring \<Rightarrow> ElementTypes" where
  "classifyTag t =
     (if t = str ''slot'' then ElementTypes_SLOT
      else if t = str ''template'' then ElementTypes_TEMPLATE
      else if list_ex (\<lambda>c. (65 \<le> c \<and> c \<le> 90) \<or> c = 45) t then ElementTypes_COMPONENT
      else ElementTypes_ELEMENT)"

text \<open>The attribute loop of \<open>parseTag\<close>, with the attributes and the names so far; it
  returns both, the set of names for the sake of the statements about it.\<close>

function parseTag_attributes ::
  "ParserContext \<Rightarrow> TagType \<Rightarrow> Prop list \<Rightarrow> jsstring list \<Rightarrow>
   exn + ((Prop list \<times> jsstring list) \<times> ParserContext)" where
  "parseTag_attributes context type ps attributeNames =
     (if source context \<noteq> [] \<and> \<not> startsWith (source context) [62] \<and>
         \<not> startsWith (source context) [47, 62] then
        if startsWith (source context) [47] then
          andThen (advanceBy (emitError context UNEXPECTED_SOLIDUS_IN_TAG 0) 1)
            (\<lambda>c1. andThen (advanceSpaces c1)
               (\<lambda>c2. parseTag_attributes c2 type ps attributeNames))
        else
          andThen
            (parseAttribute
               (if type = End then emitError context END_TAG_WITH_ATTRIBUTES 0 else context)
               attributeNames)
            (\<lambda>r. andThen
               (advanceSpaces
                  (if (case source (snd r) of
                         [] \<Rightarrow> False
                       | c # cs \<Rightarrow> \<not> isSpace c \<and> c \<noteq> 47 \<and> c \<noteq> 62)
                   then emitError (snd r) MISSING_WHITESPACE_BETWEEN_ATTRIBUTES 0
                   else snd r))
               (\<lambda>c2. parseTag_attributes c2 type
                        (if type = Start then ps @ [fst (fst r)] else ps) (snd (fst r))))
      else Inr ((ps, attributeNames), context))"
  by pat_completeness auto
termination
proof (relation "measure (\<lambda>(c, t, ps, ns). length (source c))", goal_cases)
  case 1
  show ?case by simp
next
  case (2 c type ps attributeNames c1 c2)
  then obtain n where "advanced c 1 c1" "advanced c1 n c2"
    by (auto dest!: advanceBy_advanced advanceSpaces_advanced simp: advanced_emitError_left)
  with 2(1) show ?case by (auto simp: advanced_def)
next
  case (3 c type ps attributeNames r c2)
  obtain a c1 where r: "r = (a, c1)" by (cases r)
  with 3 have "\<exists>n. 0 < n \<and> advanced c n c1"
    by (auto dest!: parseAttribute_advanced simp: advanced_emitError_left split: if_splits)
  then obtain n where n: "0 < n" "advanced c n c1" by blast
  from 3 r have "\<exists>m. advanced c1 m c2"
    by (auto dest!: advanceSpaces_advanced simp: advanced_emitError_left split: if_splits)
  with n 3(1) show ?case by (auto simp: advanced_def)
qed

declare parseTag_attributes.simps [simp del]

text \<open>\<open>parseTag(context, type, parent)\<close>. The match of the tag name is read with \<open>!\<close>: where
  there is none, a development build fails its assertion and a production build reads a
  property of \<open>null\<close>.\<close>

definition parseTag ::
  "ParserContext \<Rightarrow> TagType \<Rightarrow> TemplateChildNode option \<Rightarrow>
   exn + (TemplateChildNode \<times> ParserContext)" where
  "parseTag context type parent =
     (case execTagName (source context) of
        None \<Rightarrow> Inl (if dev context then AssertionError else TypeError)
      | Some (t, len) \<Rightarrow>
          if assertFails context
               (type = (if startsWith (source context) [60, 47] then End else Start))
          then Inl AssertionError
          else
            andThen (advanceBy context len)
              (\<lambda>c1. andThen (advanceSpaces c1)
                 (\<lambda>c2. andThen (parseTag_attributes c2 type [] [])
                    (\<lambda>pc. andThen
                       (if source (snd pc) = [] then Inr (False, emitError (snd pc) EOF_IN_TAG 0)
                        else
                          andThen
                            (advanceBy
                               (if type = End \<and> startsWith (source (snd pc)) [47, 62]
                                then emitError (snd pc) END_TAG_WITH_TRAILING_SOLIDUS 0
                                else snd pc)
                               (if startsWith (source (snd pc)) [47, 62] then 2 else 1))
                            (\<lambda>c4. Inr (startsWith (source (snd pc)) [47, 62], c4)))
                       (\<lambda>sc. Inr (ELEMENT (getNamespace (options context) t parent) t
                                     (classifyTag t) (fst (fst pc)) (fst sc) []
                                     (getSelection (snd sc) (getCursor context) None),
                                   snd sc))))))"

section \<open>Comment parsers\<close>

text \<open>\<open>/--(\!)?>/.exec(s)\<close>: the index of the match and whether it holds the \<open>!\<close>.\<close>

fun execCommentEnd :: "jsstring \<Rightarrow> (nat \<times> bool) option" where
  "execCommentEnd [] = None"
| "execCommentEnd (c # cs) =
     (if startsWith (c # cs) [45, 45, 62] then Some (0, False)
      else if startsWith (c # cs) [45, 45, 33, 62] then Some (0, True)
      else map_option (\<lambda>(i, b). (Suc i, b)) (execCommentEnd cs))"

lemma indexOf0_bound: "indexOf0 s p = Some i \<Longrightarrow> i + length p \<le> length s"
proof (induction s arbitrary: i)
  case Nil
  then show ?case by (simp split: if_splits)
next
  case (Cons c cs)
  show ?case
  proof (cases "startsWith (c # cs) p")
    case True
    with Cons.prems have "i = 0" by simp
    moreover from True have "length (take (length p) (c # cs)) = length p"
      unfolding startsWith_def by simp
    then have "min (length (c # cs)) (length p) = length p"
      by (simp only: length_take)
    then have "length p \<le> length (c # cs)"
      by arith
    ultimately show ?thesis by simp
  next
    case False
    with Cons.prems obtain j where "indexOf0 cs p = Some j" "i = Suc j" by auto
    with Cons.IH show ?thesis by auto
  qed
qed

lemma indexOf_bound:
  "indexOf s p k = Some i \<Longrightarrow> min k (length s) \<le> i \<and> i + length p \<le> length s"
  by (auto simp: indexOf_def dest!: indexOf0_bound)

text \<open>The loop of \<open>parseComment\<close> that reports nested comments: the context and \<open>prevIndex\<close>
  after it.\<close>

function parseComment_nested ::
  "ParserContext \<Rightarrow> jsstring \<Rightarrow> nat \<Rightarrow> exn + (nat \<times> ParserContext)" where
  "parseComment_nested context s prevIndex =
     (case indexOf s [60, 33, 45, 45] prevIndex of
        None \<Rightarrow> Inr (prevIndex, context)
      | Some nestedIndex \<Rightarrow>
          andThen (advanceBy context (nestedIndex - prevIndex + 1))
            (\<lambda>c1. parseComment_nested
                     (if nestedIndex + 4 < length s then emitError c1 NESTED_COMMENT 0 else c1)
                     s (nestedIndex + 1)))"
  by pat_completeness auto
termination
proof (relation "measure (\<lambda>(c, s, k). length s - k)", goal_cases)
  case 1
  show ?case by simp
next
  case (2 c s prevIndex nestedIndex c1)
  from indexOf_bound [OF 2(1)] show ?case by auto
qed

declare parseComment_nested.simps [simp del]

definition parseComment :: "ParserContext \<Rightarrow> exn + (TemplateChildNode \<times> ParserContext)" where
  "parseComment context =
     (if assertFails context (startsWith (source context) [60, 33, 45, 45]) then Inl AssertionError
      else
        (case execCommentEnd (source context) of
           None \<Rightarrow>
             andThen (advanceBy context (length (source context)))
               (\<lambda>c1. Inr (COMMENT (drop 4 (source context))
                             (getSelection (emitError c1 EOF_IN_COMMENT 0) (getCursor context) None),
                           emitError c1 EOF_IN_COMMENT 0))
         | Some (i, bang) \<Rightarrow>
             andThen
               (parseComment_nested
                  ((\<lambda>c. if bang then emitError c INCORRECTLY_CLOSED_COMMENT 0 else c)
                     (if i \<le> 3 then emitError context ABRUPT_CLOSING_OF_EMPTY_COMMENT 0
                      else context))
                  (slice (source context) 0 i) 1)
               (\<lambda>kc. andThen
                  (advanceBy (snd kc) (i + (if bang then 4 else 3) + 1 - fst kc))
                  (\<lambda>c2. Inr (COMMENT (slice (source context) 4 i)
                                (getSelection c2 (getCursor context) None), c2)))))"

text \<open>\<open>/^<(?:[\!\?]|\/[^a-z>])/i.test(s)\<close>, the assertion of \<open>parseBogusComment\<close>.\<close>

definition testBogusComment :: "jsstring \<Rightarrow> bool" where
  "testBogusComment s =
     (charAt s 0 = Some 60 \<and>
      (case charAt s 1 of
         None \<Rightarrow> False
       | Some c \<Rightarrow>
           c = 33 \<or> c = 63 \<or>
           (c = 47 \<and> (case charAt s 2 of None \<Rightarrow> False | Some d \<Rightarrow> \<not> isLetter d \<and> d \<noteq> 62))))"

definition parseBogusComment ::
  "ParserContext \<Rightarrow> exn + (TemplateChildNode \<times> ParserContext)" where
  "parseBogusComment context =
     (if assertFails context (testBogusComment (source context)) then Inl AssertionError
      else
        (case indexOf (source context) [62] 0 of
           None \<Rightarrow>
             andThen (advanceBy context (length (source context)))
               (\<lambda>c1. Inr (COMMENT
                             (drop (if charAt (source context) 1 = Some 63 then 1 else 2)
                                (source context))
                             (getSelection c1 (getCursor context) None), c1))
         | Some closeIndex \<Rightarrow>
             andThen (advanceBy context (closeIndex + 1))
               (\<lambda>c1. Inr (COMMENT
                             (slice (source context)
                                (if charAt (source context) 1 = Some 63 then 1 else 2) closeIndex)
                             (getSelection c1 (getCursor context) None), c1))))"

section \<open>Interpolation and text\<close>

text \<open>\<open>parseInterpolation(context, mode)\<close>; \<open>None\<close> for the node is \<open>undefined\<close>. The
  trimmed content always occurs in the content before trimming, so \<open>indexOf\<close> finds it. The
  last subtraction of \<open>endOffset\<close> is the source's wherever the decoded content is no
  longer than the raw content, as it is with the default table; a table whose values are
  longer than their references can make the source's number negative, which a position of
  the model cannot hold.\<close>

definition interpolationNode ::
  "ParserContext \<Rightarrow> Position \<Rightarrow> Position \<Rightarrow> nat \<Rightarrow> jsstring \<Rightarrow> jsstring \<Rightarrow>
   TemplateChildNode" where
  "interpolationNode context start inner rawContentLength rawContent preTrimContent =
     (let content = trim preTrimContent;
          startOffset = (case indexOf preTrimContent content 0 of None \<Rightarrow> 0 | Some i \<Rightarrow> i);
          innerStart = (if startOffset > 0
                        then advancePositionWithMutation inner rawContent startOffset
                        else inner);
          endOffset = rawContentLength -
                        (length preTrimContent - length content - startOffset);
          innerEnd = advancePositionWithMutation inner rawContent endOffset
      in INTERPOLATION
           (SIMPLE_EXPRESSION content False (getSelection context innerStart (Some innerEnd)))
           (getSelection context start None))"

definition parseInterpolation ::
  "ParserContext \<Rightarrow> TextModes \<Rightarrow> exn + (TemplateChildNode option \<times> ParserContext)" where
  "parseInterpolation context mode =
     (if assertFails context (startsWith (source context) (fst (delimiters (options context))))
      then Inl AssertionError
      else
        (case indexOf (source context) (snd (delimiters (options context)))
                (length (fst (delimiters (options context)))) of
           None \<Rightarrow> Inr (None, emitError context X_MISSING_INTERPOLATION_END 0)
         | Some closeIndex \<Rightarrow>
             andThen (advanceBy context (length (fst (delimiters (options context)))))
               (\<lambda>c1. andThen
                  (parseTextData c1
                     (closeIndex - length (fst (delimiters (options context)))) mode)
                  (\<lambda>tc. andThen
                     (advanceBy (snd tc) (length (snd (delimiters (options context)))))
                     (\<lambda>c3. Inr (Some (interpolationNode c3 (getCursor context) (getCursor c1)
                                         (closeIndex - length (fst (delimiters (options context))))
                                         (slice (source c1) 0
                                            (closeIndex - length (fst (delimiters (options context)))))
                                         (fst tc)),
                                 c3))))))"

text \<open>The smallest of the candidates of \<open>parseText\<close> that are not \<open>-1\<close>.\<close>

definition textEndIndex :: "ParserContext \<Rightarrow> TextModes \<Rightarrow> nat" where
  "textEndIndex context mode =
     foldl min (length (source context))
       (List.map_filter id
          [indexOf (source context) [60] 1,
           indexOf (source context) (fst (delimiters (options context))) 1,
           if mode = CDATA then indexOf (source context) [93, 93, 62] 0 else None])"

definition parseText :: "ParserContext \<Rightarrow> TextModes \<Rightarrow> exn + (TextNode \<times> ParserContext)" where
  "parseText context mode =
     (if assertFails context (length (source context) > 0) \<or>
         assertFails context (textEndIndex context mode > 0)
      then Inl AssertionError
      else
        andThen (parseTextData context (textEndIndex context mode) mode)
          (\<lambda>tc. Inr (TextNode (fst tc) (trim (fst tc) = [])
                       (getSelection (snd tc) (getCursor context) None),
                     snd tc)))"

section \<open>Children parser\<close>

definition lastOf :: "'a list \<Rightarrow> 'a option" where
  "lastOf xs = (if xs = [] then None else Some (last xs))"

text \<open>\<open>pushNode(context, nodes, node)\<close>, returning the list.\<close>

definition mergeText :: "TextNode \<Rightarrow> TextNode \<Rightarrow> TextNode" where
  "mergeText prev node =
     TextNode (text_content prev @ text_content node)
       (trim (text_content prev @ text_content node) = [])
       ((text_loc prev)\<lparr>loc_end := loc_end (text_loc node),
                        loc_source := loc_source (text_loc prev) @ loc_source (text_loc node)\<rparr>)"

definition pushNode ::
  "ParserContext \<Rightarrow> TemplateChildNode list \<Rightarrow> TemplateChildNode \<Rightarrow> TemplateChildNode list" where
  "pushNode context nodes node =
     (if \<not> dev context \<and> (case node of COMMENT c l \<Rightarrow> True | _ \<Rightarrow> False) then nodes
      else if ignoreSpaces (options context) \<and>
              (case node of TEXT t \<Rightarrow> text_isEmpty t | _ \<Rightarrow> False) then nodes
      else
        (case (lastOf nodes, node) of
           (Some (TEXT prev), TEXT t) \<Rightarrow>
             if offset (loc_end (text_loc prev)) = offset (loc_start (text_loc t))
             then butlast nodes @ [TEXT (mergeText prev t)]
             else nodes @ [node]
         | _ \<Rightarrow> nodes @ [node]))"

definition startsWithEndTagOpen :: "ParserContext \<Rightarrow> jsstring \<Rightarrow> jsstring \<Rightarrow> bool" where
  "startsWithEndTagOpen context s t =
     (startsWith s [60, 47] \<and>
      toLowerCase context (substr s 2 (length t)) = toLowerCase context t \<and>
      (case charAt s (2 + length t) of
         None \<Rightarrow> True
       | Some c \<Rightarrow> c = 9 \<or> c = 10 \<or> c = 12 \<or> c = 32 \<or> c = 47 \<or> c = 62))"

definition isEnd :: "ParserContext \<Rightarrow> TextModes \<Rightarrow> TemplateChildNode list \<Rightarrow> bool" where
  "isEnd context mode ancestors =
     (if mode = DATA \<and> startsWith (source context) [60, 47] \<and>
         list_ex (\<lambda>a. startsWithEndTagOpen context (source context) (tag a)) (rev ancestors)
      then True
      else if (mode = RCDATA \<or> mode = RAWTEXT) \<and>
              (case lastOf ancestors of
                 None \<Rightarrow> False
               | Some parent \<Rightarrow> startsWithEndTagOpen context (source context) (tag parent))
      then True
      else if mode = CDATA \<and> startsWith (source context) [93, 93, 62] then True
      else source context = [])"

subsection \<open>Results of the recursive parsers\<close>

text \<open>
  \<open>parseChildren\<close>, \<open>parseElement\<close> and \<open>parseCDATA\<close> call each other, and the loop of
  \<open>parseChildren\<close> need not end. They take fuel: \<open>None\<close> is a run that is out of fuel,
  \<open>Some (Inl e)\<close> one that throws, \<open>Some (Inr (x, c))\<close> one that returns \<open>x\<close> and leaves the
  context \<open>c\<close>. \<open>parseElement\<close> and \<open>parseCDATA\<close> receive the parser of children they
  call, which is \<open>parseChildren\<close> with the fuel that is left.
\<close>

type_synonym 'a outcome = "(exn + ('a \<times> ParserContext)) option"

type_synonym childrenParser =
  "ParserContext \<Rightarrow> TextModes \<Rightarrow> TemplateChildNode list \<Rightarrow> TemplateChildNode list outcome"

definition andThenF :: "'a outcome \<Rightarrow> ('a \<times> ParserContext \<Rightarrow> 'b outcome) \<Rightarrow> 'b outcome" where
  "andThenF m f =
     (case m of None \<Rightarrow> None | Some (Inl e) \<Rightarrow> Some (Inl e) | Some (Inr x) \<Rightarrow> f x)"

lemma andThenF_simps [simp]:
  "andThenF None f = None"
  "andThenF (Some (Inl e)) f = Some (Inl e)"
  "andThenF (Some (Inr x)) f = f x"
  by (simp_all add: andThenF_def)

lemma andThenF_weak_cong [cong]: "m = m' \<Longrightarrow> andThenF m f = andThenF m' f"
  by simp

text \<open>What one round of the loop of \<open>parseChildren\<close> yields before \<open>if (!node)\<close>: no node,
  a node, an array of nodes, or \<open>continue\<close>.\<close>

datatype ChildResult =
  NoNode | OneNode TemplateChildNode | ManyNodes "TemplateChildNode list" | Continue

definition oneNode ::
  "exn + (TemplateChildNode \<times> ParserContext) \<Rightarrow> ChildResult outcome" where
  "oneNode r = Some (andThen r (\<lambda>nc. Inr (OneNode (fst nc), snd nc)))"

subsection \<open>Elements and CDATA sections\<close>

definition parseCDATA ::
  "childrenParser \<Rightarrow> ParserContext \<Rightarrow> TemplateChildNode list \<Rightarrow> TemplateChildNode list outcome" where
  "parseCDATA parseChildren' context ancestors =
     (if assertFails context
           (case lastOf ancestors of None \<Rightarrow> True | Some parent \<Rightarrow> ns parent \<noteq> Namespaces_HTML) \<or>
         assertFails context (startsWith (source context) (str ''<![CDATA[''))
      then Some (Inl AssertionError)
      else
        (case advanceBy context 9 of
           Inl e \<Rightarrow> Some (Inl e)
         | Inr c1 \<Rightarrow>
             andThenF (parseChildren' c1 CDATA ancestors)
               (\<lambda>r. if source (snd r) = [] then Some (Inr (fst r, emitError (snd r) EOF_IN_CDATA 0))
                     else if assertFails (snd r) (startsWith (source (snd r)) [93, 93, 62])
                     then Some (Inl AssertionError)
                     else Some (andThen (advanceBy (snd r) 3) (\<lambda>c3. Inr (fst r, c3))))))"

text \<open>The end of \<open>parseElement\<close>, after the children: the end tag or its diagnostics, and
  the element with its children and its location.\<close>

definition closeElement ::
  "ParserContext \<Rightarrow> TemplateChildNode option \<Rightarrow> TemplateChildNode \<Rightarrow> TemplateChildNode list \<Rightarrow>
   exn + (TemplateChildNode \<times> ParserContext)" where
  "closeElement context parent element cs =
     andThen
       (if startsWithEndTagOpen context (source context) (tag element)
        then andThen (parseTag context End parent) (\<lambda>r. Inr (snd r))
        else Inr
          ((\<lambda>c. if source c = [] \<and> toLowerCase c (tag element) = str ''script'' \<and>
                   (case cs of
                      [] \<Rightarrow> False
                    | first # rest \<Rightarrow> startsWith (loc_source (loc first)) (str ''<!--''))
                 then emitError c EOF_IN_SCRIPT_HTML_COMMENT_LIKE_TEXT 0 else c)
             (emitError context X_MISSING_END_TAG 0)))
       (\<lambda>c. Inr (ELEMENT (ns element) (tag element) (tagType element) (props element)
                    (isSelfClosing element) cs
                    (getSelection c (loc_start (element_loc element)) None),
                  c))"

text \<open>\<open>/^<[a-z]/i.test(s)\<close>, the assertion of \<open>parseElement\<close>.\<close>

definition testElementStart :: "jsstring \<Rightarrow> bool" where
  "testElementStart s =
     (charAt s 0 = Some 60 \<and> (case charAt s 1 of None \<Rightarrow> False | Some c \<Rightarrow> isLetter c))"

definition parseElement ::
  "childrenParser \<Rightarrow> ParserContext \<Rightarrow> TemplateChildNode list \<Rightarrow> TemplateChildNode outcome" where
  "parseElement parseChildren' context ancestors =
     (if assertFails context (testElementStart (source context)) then Some (Inl AssertionError)
      else
        (case parseTag context Start (lastOf ancestors) of
           Inl e \<Rightarrow> Some (Inl e)
         | Inr (element, c1) \<Rightarrow>
             if isSelfClosing element \<or> isVoidTag (options c1) (tag element)
             then Some (Inr (element, c1))
             else
               andThenF
                 (parseChildren' c1 (getTextMode (options c1) (tag element) (ns element))
                    (ancestors @ [element]))
                 (\<lambda>r. Some (closeElement (snd r) (lastOf ancestors) element (fst r)))))"

subsection \<open>The loop of parseChildren\<close>

text \<open>One round of the loop up to \<open>if (!node)\<close>.\<close>

definition parseChild ::
  "childrenParser \<Rightarrow> ParserContext \<Rightarrow> TextModes \<Rightarrow> TemplateChildNode list \<Rightarrow> ChildResult outcome" where
  "parseChild parseChildren' context mode ancestors =
     (if startsWith (source context) (fst (delimiters (options context))) then
        Some (andThen (parseInterpolation context mode)
                (\<lambda>r. Inr (case fst r of None \<Rightarrow> NoNode | Some nd \<Rightarrow> OneNode nd, snd r)))
      else if mode = DATA \<and> charAt (source context) 0 = Some 60 then
        if length (source context) = 1 then
          Some (Inr (NoNode, emitError context EOF_BEFORE_TAG_NAME 1))
        else if charAt (source context) 1 = Some 33 then
          if startsWith (source context) (str ''<!--'') then oneNode (parseComment context)
          else if startsWith (source context) (str ''<!DOCTYPE'') then
            oneNode (parseBogusComment context)
          else if startsWith (source context) (str ''<![CDATA['') then
            if (case lastOf ancestors of None \<Rightarrow> Namespaces_HTML | Some parent \<Rightarrow> ns parent)
                 \<noteq> Namespaces_HTML
            then andThenF (parseCDATA parseChildren' context ancestors)
                   (\<lambda>r. Some (Inr (ManyNodes (fst r), snd r)))
            else oneNode (parseBogusComment (emitError context CDATA_IN_HTML_CONTENT 0))
          else oneNode (parseBogusComment (emitError context INCORRECTLY_OPENED_COMMENT 0))
        else if charAt (source context) 1 = Some 47 then
          if length (source context) = 2 then
            Some (Inr (NoNode, emitError context EOF_BEFORE_TAG_NAME 2))
          else if charAt (source context) 2 = Some 62 then
            Some (andThen (advanceBy (emitError context MISSING_END_TAG_NAME 2) 3)
                    (\<lambda>c. Inr (Continue, c)))
          else if (case charAt (source context) 2 of None \<Rightarrow> False | Some c \<Rightarrow> isLetter c) then
            Some (andThen (parseTag (emitError context X_INVALID_END_TAG 0) End (lastOf ancestors))
                    (\<lambda>r. Inr (Continue, snd r)))
          else
            oneNode (parseBogusComment
                       (emitError context INVALID_FIRST_CHARACTER_OF_TAG_NAME 2))
        else if (case charAt (source context) 1 of None \<Rightarrow> False | Some c \<Rightarrow> isLetter c) then
          andThenF (parseElement parseChildren' context ancestors)
            (\<lambda>r. Some (Inr (OneNode (fst r), snd r)))
        else if charAt (source context) 1 = Some 63 then
          oneNode (parseBogusComment
                     (emitError context UNEXPECTED_QUESTION_MARK_INSTEAD_OF_TAG_NAME 1))
        else Some (Inr (NoNode, emitError context INVALID_FIRST_CHARACTER_OF_TAG_NAME 1))
      else Some (Inr (NoNode, context)))"

text \<open>The rest of the round: the text node where there is no node, and the pushes.\<close>

definition pushChild ::
  "TextModes \<Rightarrow> TemplateChildNode list \<Rightarrow> ChildResult \<times> ParserContext \<Rightarrow>
   exn + (TemplateChildNode list \<times> ParserContext)" where
  "pushChild mode nodes r =
     (case fst r of
        Continue \<Rightarrow> Inr (nodes, snd r)
      | NoNode \<Rightarrow>
          andThen (parseText (snd r) mode)
            (\<lambda>tc. Inr (pushNode (snd tc) nodes (TEXT (fst tc)), snd tc))
      | OneNode nd \<Rightarrow> Inr (pushNode (snd r) nodes nd, snd r)
      | ManyNodes nds \<Rightarrow> Inr (foldl (pushNode (snd r)) nodes nds, snd r))"

primrec parseChildren_loop ::
  "nat \<Rightarrow> ParserContext \<Rightarrow> TextModes \<Rightarrow> TemplateChildNode list \<Rightarrow> TemplateChildNode list \<Rightarrow>
   TemplateChildNode list outcome" where
  "parseChildren_loop 0 context mode ancestors nodes = None"
| "parseChildren_loop (Suc n) context mode ancestors nodes =
     (if isEnd context mode ancestors then Some (Inr (nodes, context))
      else if assertFails context (length (source context) > 0) then Some (Inl AssertionError)
      else
        andThenF (parseChild (\<lambda>c m a. parseChildren_loop n c m a []) context mode ancestors)
          (\<lambda>r. andThenF (Some (pushChild mode nodes r))
                  (\<lambda>nc. parseChildren_loop n (snd nc) mode ancestors (fst nc))))"

definition parseChildren :: "nat \<Rightarrow> childrenParser" where
  "parseChildren fuel context mode ancestors = parseChildren_loop fuel context mode ancestors []"

section \<open>The entry point\<close>

subsection \<open>The parser context at the start\<close>

text \<open>\<open>createParserContext(content, options)\<close>, with the options given in full (the
  source's defaults merged in). The first two arguments set the model's fields \<open>dev\<close> and
  \<open>toLowerCase\<close>.\<close>

definition createParserContext ::
  "bool \<Rightarrow> (jsstring \<Rightarrow> jsstring) \<Rightarrow> jsstring \<Rightarrow> ParserOptions \<Rightarrow> ParserContext" where
  "createParserContext isDev lower content opts =
     \<lparr>offset = 0, line = 1, column = 1,
      options = opts,
      originalSource = content,
      source = content,
      maxCRNameLength =
        foldl (\<lambda>m name. max m (length name)) 0 (map fst (namedCharacterReferences opts)),
      errors = [],
      dev = isDev,
      toLowerCase = lower\<rparr>"

text \<open>\<open>toLowerCase\<close> on ASCII strings, where it is known without the Unicode tables.\<close>

definition asciiLower :: "jsstring \<Rightarrow> jsstring" where
  "asciiLower s = map (\<lambda>c. if 65 \<le> c \<and> c \<le> 90 then c + 32 else c) s"

text \<open>\<open>parse(content, options)\<close> with fuel: the root and the diagnostics the sink has
  received.\<close>

definition parse ::
  "nat \<Rightarrow> bool \<Rightarrow> (jsstring \<Rightarrow> jsstring) \<Rightarrow> jsstring \<Rightarrow> ParserOptions \<Rightarrow>
   (exn + (RootNode \<times> CompilerError list)) option" where
  "parse fuel isDev lower content opts =
     (case parseChildren fuel (createParserContext isDev lower content opts) DATA [] of
        None \<Rightarrow> None
      | Some (Inl e) \<Rightarrow> Some (Inl e)
      | Some (Inr (cs, c)) \<Rightarrow>
          Some (Inr (ROOT cs (getSelection c
                                (getCursor (createParserContext isDev lower content opts)) None),
                     errors c)))"

section \<open>Evaluation\<close>

text \<open>The round of the loop with the parser of children named, as it is evaluated.\<close>

lemma parseChildren_loop_Suc:
  "parseChildren_loop (Suc n) context mode ancestors nodes =
     (if isEnd context mode ancestors then Some (Inr (nodes, context))
      else if assertFails context (length (source context) > 0) then Some (Inl AssertionError)
      else
        andThenF (parseChild (parseChildren n) context mode ancestors)
          (\<lambda>r. andThenF (Some (pushChild mode nodes r))
                  (\<lambda>nc. parseChildren_loop n (snd nc) mode ancestors (fst nc))))"
  unfolding parseChildren_def [abs_def] by simp

declare parseChildren_loop.simps(2) [simp del]

text \<open>The definitions unfolded to run the parser on a given input.\<close>

lemmas parser_eval =
  str_def startsWith_def slice_def substr_def charAt_def indexOf_def
  advancePositionWithMutation_def advancePositionWithClone_def getCursor_def getSelection_def
  getNewPosition_def emitError_def assertFails_def isDigit_def isLetter_def isHexDigit_def
  isSpace_def isTrimmed_def trim_def advanceBy_def advanceSpaces_def isTruthy_def
  parseNamedReference_def execBody_def digitValue_def parseInt_def CCR_REPLACEMENTS_def
  checkCodePoint_def fromCodePoint_def parseNumericReference_def parseTextData_def
  createParserContext_def defaultParserOptions_def parseTextData_loop.simps
  lookupReference.simps lookupProperty_def objectPrototype_def endsWithChar_def Let_def
  emitErrorsAt_def parseAttributeValue_def
  isLineTerminator_def isDirectiveNameChar_def directiveGroup1_def directiveGroup2_def
  directiveMatchAt_def execDirectiveFrom.simps execDirective_def execAttributeName_def
  directiveArgument_def unquotedLoc_def isDirectiveName_def buildAttribute_def
  parseAttributeAssignment_def attributeNameErrors_def parseAttribute_def execTagName_def
  classifyTag_def parseTag_attributes.simps parseTag_def parseComment_nested.simps
  parseComment_def testBogusComment_def parseBogusComment_def interpolationNode_def
  parseInterpolation_def textEndIndex_def parseText_def lastOf_def mergeText_def pushNode_def
  startsWithEndTagOpen_def isEnd_def oneNode_def parseCDATA_def closeElement_def
  testElementStart_def parseElement_def parseChild_def pushChild_def parseChildren_def
  parse_def asciiLower_def Namespaces_HTML_def List.map_filter_def parseChildren_loop_Suc

section \<open>What the parsers consume\<close>

lemma advanced_offset: "advanced c n c' \<Longrightarrow> offset c' = offset c + n"
  by (simp add: advanced_def)

lemma advanced_options: "advanced c n c' \<Longrightarrow> options c' = options c"
  by (simp add: advanced_def)

lemma advanced_length:
  "advanced c n c' \<Longrightarrow> 0 < n \<Longrightarrow> source c \<noteq> [] \<Longrightarrow> length (source c') < length (source c)"
  by (simp add: advanced_def)

lemma advanced_positive:
  "\<exists>n. 0 < n \<and> advanced c n c' \<Longrightarrow> advanced c' m c'' \<Longrightarrow> \<exists>n. 0 < n \<and> advanced c n c''"
  by (metis add_gr_0 advanced_trans)

lemma advanced_positive2:
  "advanced c m c' \<Longrightarrow> \<exists>n. 0 < n \<and> advanced c' n c'' \<Longrightarrow> \<exists>n. 0 < n \<and> advanced c n c''"
  by (metis add_gr_0 advanced_trans)

lemma parseTextData_loop_end:
  "parseTextData_loop c e mode t = Inr (t', c') \<Longrightarrow> e \<le> offset c'"
proof (induction c e mode t arbitrary: t' c' rule: parseTextData_loop.induct)
  case (1 c e mode t)
  show ?case
  proof (cases "offset c < e")
    case False
    with "1.prems" show ?thesis by (simp add: parseTextData_loop.simps)
  next
    case True
    note lt = this
    let ?h = "case execHead (source c) of None \<Rightarrow> None
              | Some (i, h) \<Rightarrow> if e \<le> offset c + i then None else Some (i, h)"
    show ?thesis
    proof (cases ?h)
      case None
      with lt "1.prems" have "advanceBy c (e - offset c) = Inr c'"
        by (simp add: parseTextData_loop.simps [of c] andThen_eq_Inr)
      from advanceBy_advanced [OF this] lt show ?thesis by (simp add: advanced_def)
    next
      case (Some ih)
      obtain i h where ih: "ih = (i, h)" by (cases ih)
      from lt Some ih "1.prems" obtain c1 x c2 where
        c1: "advanceBy c i = Inr c1" and
        c2: "(if h = [38] then parseNamedReference c1 mode else parseNumericReference c1 h) = Inr (x, c2)" and
        rec: "parseTextData_loop c2 e mode (t @ slice (source c) 0 i @ x) = Inr (t', c')"
        by (auto simp: parseTextData_loop.simps [of c] andThen_eq_Inr)
      from "1.IH" [OF lt Some ih [symmetric] c1 c2 refl rec] show ?thesis .
    qed
  qed
qed

lemma parseTextData_positive:
  assumes "parseTextData c len mode = Inr (t, c')" "0 < len"
  shows "\<exists>n. 0 < n \<and> advanced c n c'"
proof -
  from assms(1) obtain n where n: "advanced c n c'" by (blast dest: parseTextData_advanced)
  have "offset c + len \<le> offset c'"
  proof (cases "mode = RAWTEXT \<or> mode = CDATA")
    case True
    with assms(1) have "advanceBy c len = Inr c'"
      by (auto simp: parseTextData_def andThen_eq_Inr)
    from advanceBy_advanced [OF this] show ?thesis by (simp add: advanced_def)
  next
    case False
    with assms(1) show ?thesis
      by (auto simp: parseTextData_def dest: parseTextData_loop_end)
  qed
  with n assms(2) have "0 < n" by (simp add: advanced_def)
  with n show ?thesis by blast
qed

lemma indexOf0_zero: "indexOf0 s p = Some 0 \<Longrightarrow> startsWith s p"
  by (cases s) (auto simp: startsWith_def split: if_splits)

lemma textEndIndex_positive:
  assumes "source c \<noteq> []" "mode = CDATA \<longrightarrow> \<not> startsWith (source c) [93, 93, 62]"
  shows "0 < textEndIndex c mode"
proof -
  have a: "\<And>p i. indexOf (source c) p 1 = Some i \<Longrightarrow> 0 < i"
  proof -
    fix p i assume "indexOf (source c) p 1 = Some i"
    from indexOf_bound [OF this] have "min 1 (length (source c)) \<le> i" by simp
    moreover from assms(1) have "1 \<le> length (source c)" by (cases "source c") simp_all
    ultimately show "0 < i" by simp
  qed
  have b: "\<And>i. mode = CDATA \<Longrightarrow> indexOf (source c) [93, 93, 62] 0 = Some i \<Longrightarrow> 0 < i"
    using assms(2) by (auto simp: indexOf_def dest: indexOf0_zero intro: gr0I)
  show ?thesis
    using assms(1) a b
    by (auto simp: textEndIndex_def List.map_filter_def min_def split: option.splits)
qed

lemma parseText_advanced:
  assumes "parseText c mode = Inr (t, c')" "source c \<noteq> []"
    "mode = CDATA \<longrightarrow> \<not> startsWith (source c) [93, 93, 62]"
  shows "\<exists>n. 0 < n \<and> advanced c n c'"
proof -
  from assms(1) obtain x where "parseTextData c (textEndIndex c mode) mode = Inr (x, c')"
    by (auto simp: parseText_def andThen_eq_Inr split: if_splits)
  with textEndIndex_positive [OF assms(2,3)] show ?thesis
    by (rule parseTextData_positive [rotated])
qed


lemma parseTag_attributes_advanced:
  "parseTag_attributes c type ps names = Inr (r, c') \<Longrightarrow> \<exists>n. advanced c n c'"
proof (induction c type ps names arbitrary: r c' rule: parseTag_attributes.induct)
  case (1 c type ps names)
  let ?go = "source c \<noteq> [] \<and> \<not> startsWith (source c) [62] \<and> \<not> startsWith (source c) [47, 62]"
  show ?case
  proof (cases ?go)
    case False
    with "1.prems" have "c' = c" by (simp add: parseTag_attributes.simps [of c])
    then show ?thesis by simp
  next
    case True
    note go = this
    show ?thesis
    proof (cases "startsWith (source c) [47]")
      case True
      with go "1.prems" obtain c1 c2 where
        c1: "advanceBy (emitError c UNEXPECTED_SOLIDUS_IN_TAG 0) 1 = Inr c1" and
        c2: "advanceSpaces c1 = Inr c2" and
        rec: "parseTag_attributes c2 type ps names = Inr (r, c')"
        by (auto simp: parseTag_attributes.simps [of c] andThen_eq_Inr)
      from "1.IH"(1) [OF go True c1 c2 rec] obtain n3 where "advanced c2 n3 c'" by blast
      moreover from c1 have "advanced c 1 c1"
        by (auto dest!: advanceBy_advanced simp: advanced_emitError_left)
      moreover from c2 obtain n2 where "advanced c1 n2 c2"
        by (blast dest: advanceSpaces_advanced)
      ultimately show ?thesis by (blast intro: advanced_trans)
    next
      case False
      let ?c0 = "if type = End then emitError c END_TAG_WITH_ATTRIBUTES 0 else c"
      from go False "1.prems" obtain x c2 where
        x: "parseAttribute ?c0 names = Inr x" and
        c2: "advanceSpaces
               (if (case source (snd x) of [] \<Rightarrow> False
                    | c # cs \<Rightarrow> \<not> isSpace c \<and> c \<noteq> 47 \<and> c \<noteq> 62)
                then emitError (snd x) MISSING_WHITESPACE_BETWEEN_ATTRIBUTES 0
                else snd x) = Inr c2" and
        rec: "parseTag_attributes c2 type
                (if type = Start then ps @ [fst (fst x)] else ps) (snd (fst x)) = Inr (r, c')"
        by (auto simp: parseTag_attributes.simps [of c] andThen_eq_Inr)
      from "1.IH"(2) [OF go False x c2 rec] obtain n3 where n3: "advanced c2 n3 c'" by blast
      obtain a c1 where xa: "x = (a, c1)" by (cases x)
      from x xa have "\<exists>n. advanced c n c1"
        by (auto dest!: parseAttribute_advanced simp: advanced_emitError_left split: if_splits)
      moreover from c2 xa have "\<exists>n. advanced c1 n c2"
        by (auto dest!: advanceSpaces_advanced simp: advanced_emitError_left split: if_splits)
      ultimately show ?thesis using n3 by (blast intro: advanced_trans)
    qed
  qed
qed

lemma execTagName_length: "execTagName s = Some (t, len) \<Longrightarrow> 0 < len \<and> s \<noteq> []"
  by (auto simp: execTagName_def split: list.splits if_splits)

lemma parseTag_advanced:
  assumes "parseTag c type parent = Inr (e, c')"
  shows "\<exists>n. 0 < n \<and> advanced c n c'" and "source c \<noteq> []"
proof -
  from assms obtain t len where tl: "execTagName (source c) = Some (t, len)"
    by (auto simp: parseTag_def split: option.splits)
  then show "source c \<noteq> []" by (auto dest: execTagName_length)
  from assms tl obtain c1 c2 pc sc where
    c1: "advanceBy c len = Inr c1" and c2: "advanceSpaces c1 = Inr c2" and
    pc: "parseTag_attributes c2 type [] [] = Inr pc" and
    sc: "(if source (snd pc) = [] then Inr (False, emitError (snd pc) EOF_IN_TAG 0)
          else andThen
                 (advanceBy
                    (if type = End \<and> startsWith (source (snd pc)) [47, 62]
                     then emitError (snd pc) END_TAG_WITH_TRAILING_SOLIDUS 0 else snd pc)
                    (if startsWith (source (snd pc)) [47, 62] then 2 else 1))
                 (\<lambda>c4. Inr (startsWith (source (snd pc)) [47, 62], c4))) = Inr sc" and
    c': "c' = snd sc"
    by (auto simp: parseTag_def andThen_eq_Inr split: if_splits)
  from c1 have "advanced c len c1" by (rule advanceBy_advanced)
  moreover from c2 obtain n2 where "advanced c1 n2 c2" by (blast dest: advanceSpaces_advanced)
  moreover from pc obtain n3 where "advanced c2 n3 (snd pc)"
    by (cases pc) (auto dest: parseTag_attributes_advanced)
  moreover from sc have "\<exists>n4. advanced (snd pc) n4 (snd sc)"
    by (auto simp: andThen_eq_Inr advanced_emitError_left
        dest!: advanceBy_advanced split: if_splits)
  ultimately obtain m where "advanced c (len + m) c'"
    unfolding c' by (metis advanced_trans add.assoc)
  moreover from tl have "0 < len" by (auto dest: execTagName_length)
  ultimately show "\<exists>n. 0 < n \<and> advanced c n c'"
    by (intro exI [of _ "len + m"]) simp
qed

lemma parseComment_nested_advanced:
  "parseComment_nested c s k = Inr (k', c') \<Longrightarrow>
     (\<exists>n. advanced c n c') \<and> k' \<le> max k (length s)"
proof (induction c s k arbitrary: k' c' rule: parseComment_nested.induct)
  case (1 c s k)
  show ?case
  proof (cases "indexOf s [60, 33, 45, 45] k")
    case None
    with "1.prems" show ?thesis by (simp add: parseComment_nested.simps [of c])
  next
    case (Some i)
    with "1.prems" obtain c1 where
      c1: "advanceBy c (i - k + 1) = Inr c1" and
      rec: "parseComment_nested
              (if i + 4 < length s then emitError c1 NESTED_COMMENT 0 else c1) s (i + 1) =
            Inr (k', c')"
      by (auto simp: parseComment_nested.simps [of c] andThen_eq_Inr)
    from "1.IH" [OF Some c1 rec] obtain n2 where
      n2: "advanced (if i + 4 < length s then emitError c1 NESTED_COMMENT 0 else c1) n2 c'"
      and k': "k' \<le> max (i + 1) (length s)" by blast
    from n2 have "advanced c1 n2 c'" by (simp add: advanced_emitError_left split: if_splits)
    with advanceBy_advanced [OF c1] have "\<exists>n. advanced c n c'"
      by (blast intro: advanced_trans)
    moreover from indexOf_bound [OF Some] k' have "k' \<le> max k (length s)" by simp
    ultimately show ?thesis by blast
  qed
qed

lemma parseComment_advanced:
  assumes "parseComment c = Inr (e, c')" "source c \<noteq> []"
  shows "\<exists>n. 0 < n \<and> advanced c n c'"
proof (cases "execCommentEnd (source c)")
  case None
  with assms(1) obtain c1 where "advanceBy c (length (source c)) = Inr c1"
    "c' = emitError c1 EOF_IN_COMMENT 0"
    by (auto simp: parseComment_def andThen_eq_Inr split: if_splits)
  with assms(2) show ?thesis
    by (auto dest!: advanceBy_advanced intro!: exI [of _ "length (source c)"])
next
  case (Some ib)
  obtain i bang where ib: "ib = (i, bang)" by (cases ib)
  let ?c0 = "(\<lambda>c. if bang then emitError c INCORRECTLY_CLOSED_COMMENT 0 else c)
               (if i \<le> 3 then emitError c ABRUPT_CLOSING_OF_EMPTY_COMMENT 0 else c)"
  from assms(1) Some ib obtain k c1 where
    n: "parseComment_nested ?c0 (slice (source c) 0 i) 1 = Inr (k, c1)" and
    a: "advanceBy c1 (i + (if bang then 4 else 3) + 1 - k) = Inr c'"
    by (auto simp: parseComment_def andThen_eq_Inr split: if_splits)
  from parseComment_nested_advanced [OF n] obtain n1 where
    n1: "advanced ?c0 n1 c1" and k: "k \<le> max 1 (length (slice (source c) 0 i))" by blast
  have "length (slice (source c) 0 i) \<le> i" by (simp add: slice_def)
  with k have pos: "0 < i + (if bang then 4 else 3) + 1 - k" by auto
  from n1 have "advanced c n1 c1" by (simp add: advanced_emitError_left split: if_splits)
  with advanceBy_advanced [OF a]
  have "advanced c (n1 + (i + (if bang then 4 else 3) + 1 - k)) c'"
    by (blast intro: advanced_trans)
  with pos show ?thesis by (intro exI [of _ "n1 + (i + (if bang then 4 else 3) + 1 - k)"]) simp
qed

lemma parseBogusComment_advanced:
  assumes "parseBogusComment c = Inr (e, c')" "source c \<noteq> []"
  shows "\<exists>n. 0 < n \<and> advanced c n c'"
  using assms
  by (auto simp: parseBogusComment_def andThen_eq_Inr
      dest!: advanceBy_advanced split: if_splits option.splits
      intro: exI [of _ "length (source c)"])


definition delimitersOK :: "ParserOptions \<Rightarrow> bool" where
  "delimitersOK opts = (fst (delimiters opts) \<noteq> [] \<or> snd (delimiters opts) \<noteq> [])"

definition advancing :: "childrenParser \<Rightarrow> bool" where
  "advancing P = (\<forall>c m a r c'. P c m a = Some (Inr (r, c')) \<longrightarrow> (\<exists>n. advanced c n c'))"

definition totalBelow :: "childrenParser \<Rightarrow> ParserOptions \<Rightarrow> nat \<Rightarrow> bool" where
  "totalBelow P opts k =
     (\<forall>c m a. options c = opts \<longrightarrow> length (source c) < k \<longrightarrow> P c m a \<noteq> None)"

lemma advancingD:
  "advancing P \<Longrightarrow> P c m a = Some (Inr x) \<Longrightarrow> \<exists>n. advanced c n (snd x)"
  unfolding advancing_def by (cases x) (metis snd_conv)

lemma andThenF_eq_Some_Inr:
  "andThenF m f = Some (Inr y) \<longleftrightarrow> (\<exists>x. m = Some (Inr x) \<and> f x = Some (Inr y))"
  by (cases m) (auto simp: andThenF_def split: sum.splits)

lemma andThenF_eq_None:
  "andThenF m f = None \<longleftrightarrow> (m = None \<or> (\<exists>x. m = Some (Inr x) \<and> f x = None))"
  by (cases m) (auto simp: andThenF_def split: sum.splits)

lemma parseInterpolation_advanced:
  assumes "parseInterpolation c mode = Inr (r, c')"
  shows "\<exists>n. advanced c n c' \<and> (r = None \<longrightarrow> n = 0) \<and>
             (delimitersOK (options c) \<longrightarrow> r \<noteq> None \<longrightarrow> 0 < n)"
proof (cases "indexOf (source c) (snd (delimiters (options c)))
                (length (fst (delimiters (options c))))")
  case None
  with assms have "r = None" "c' = emitError c X_MISSING_INTERPOLATION_END 0"
    by (auto simp: parseInterpolation_def split: if_splits)
  then show ?thesis by (intro exI [of _ 0]) simp
next
  case (Some closeIndex)
  let ?o = "length (fst (delimiters (options c)))"
  let ?cl = "length (snd (delimiters (options c)))"
  from assms Some obtain c1 tc where
    c1: "advanceBy c ?o = Inr c1" and
    tc: "parseTextData c1 (closeIndex - ?o) mode = Inr tc" and
    c3: "advanceBy (snd tc) ?cl = Inr c'" and r: "r \<noteq> None"
    by (auto simp: parseInterpolation_def andThen_eq_Inr split: if_splits)
  from tc obtain m where m: "advanced c1 m (snd tc)"
    by (cases tc) (auto dest: parseTextData_advanced)
  from advanceBy_advanced [OF c1] m advanceBy_advanced [OF c3]
  have "advanced c (?o + m + ?cl) c'" by (blast intro: advanced_trans)
  moreover have "delimitersOK (options c) \<longrightarrow> 0 < ?o + m + ?cl"
    by (auto simp: delimitersOK_def)
  ultimately show ?thesis using r by blast
qed

lemma parseCDATA_advanced:
  assumes "advancing P" "parseCDATA P c anc = Some (Inr (r, c'))"
  shows "\<exists>n. 0 < n \<and> advanced c n c'"
proof -
  from assms(2) obtain c1 x where
    c1: "advanceBy c 9 = Inr c1" and x: "P c1 CDATA anc = Some (Inr x)" and
    fin: "(if source (snd x) = [] then Some (Inr (fst x, emitError (snd x) EOF_IN_CDATA 0))
           else if assertFails (snd x) (startsWith (source (snd x)) [93, 93, 62])
           then Some (Inl AssertionError)
           else Some (andThen (advanceBy (snd x) 3) (\<lambda>c3. Inr (fst x, c3)))) = Some (Inr (r, c'))"
    by (auto simp: parseCDATA_def andThenF_eq_Some_Inr split: if_splits sum.splits)
  from advancingD [OF assms(1) x] obtain m where m: "advanced c1 m (snd x)" by blast
  from fin have "\<exists>k. advanced (snd x) k c'"
    by (auto simp: andThen_eq_Inr dest!: advanceBy_advanced split: if_splits)
  then obtain k where "advanced (snd x) k c'" by blast
  with advanceBy_advanced [OF c1] m have "advanced c (9 + m + k) c'"
    by (blast intro: advanced_trans)
  then show ?thesis by (intro exI [of _ "9 + m + k"]) simp
qed

lemma closeElement_advanced:
  "closeElement c parent el cs = Inr (e, c') \<Longrightarrow> \<exists>n. advanced c n c'"
  by (auto simp: closeElement_def andThen_eq_Inr dest!: parseTag_advanced(1)
      split: if_splits)

lemma parseElement_advanced:
  assumes "advancing P" "parseElement P c anc = Some (Inr (e, c'))"
  shows "\<exists>n. 0 < n \<and> advanced c n c'"
proof -
  from assms(2) obtain el c1 where
    t: "parseTag c Start (lastOf anc) = Inr (el, c1)"
    by (auto simp: parseElement_def split: if_splits sum.splits)
  from parseTag_advanced(1) [OF t] have pos: "\<exists>n. 0 < n \<and> advanced c n c1" .
  show ?thesis
  proof (cases "isSelfClosing el \<or> isVoidTag (options c1) (tag el)")
    case True
    with assms(2) t have "c' = c1" by (auto simp: parseElement_def split: if_splits)
    with pos show ?thesis by simp
  next
    case False
    with assms(2) t obtain x where
      x: "P c1 (getTextMode (options c1) (tag el) (ns el)) (anc @ [el]) = Some (Inr x)" and
      cl: "closeElement (snd x) (lastOf anc) el (fst x) = Inr (e, c')"
      by (auto simp: parseElement_def andThenF_eq_Some_Inr split: if_splits)
    from advancingD [OF assms(1) x] obtain m where "advanced c1 m (snd x)" by blast
    moreover from cl obtain k where "advanced (snd x) k c'"
      by (blast dest: closeElement_advanced)
    ultimately have "\<exists>j. advanced c1 j c'" by (blast intro: advanced_trans)
    with pos show ?thesis by (blast intro: advanced_positive)
  qed
qed


definition stepResult :: "ParserContext \<Rightarrow> ChildResult \<Rightarrow> ParserContext \<Rightarrow> bool" where
  "stepResult c r c' =
     (\<exists>n. advanced c n c' \<and> (r = NoNode \<longrightarrow> n = 0) \<and>
          (delimitersOK (options c) \<longrightarrow> r \<noteq> NoNode \<longrightarrow> 0 < n))"

lemma stepResult_NoNode: "advanced c 0 c' \<Longrightarrow> stepResult c NoNode c'"
  unfolding stepResult_def by blast

lemma stepResult_pos: "\<exists>n. 0 < n \<and> advanced c n c' \<Longrightarrow> r \<noteq> NoNode \<Longrightarrow> stepResult c r c'"
  unfolding stepResult_def by blast

lemma stepResult_emitError [simp]:
  "stepResult (emitError c code off) r c' = stepResult c r c'"
  by (simp add: stepResult_def advanced_emitError_left)

lemma oneNode_eq:
  "oneNode m = Some (Inr (r, c')) \<longleftrightarrow> (\<exists>nd. m = Inr (nd, c') \<and> r = OneNode nd)"
  by (cases m) (auto simp: oneNode_def)

lemma oneNode_comment:
  "oneNode (parseComment c) = Some (Inr (r, c')) \<Longrightarrow> source c \<noteq> [] \<Longrightarrow> stepResult c r c'"
  by (auto simp: oneNode_eq intro!: stepResult_pos dest: parseComment_advanced)

lemma oneNode_bogus:
  "oneNode (parseBogusComment c0) = Some (Inr (r, c')) \<Longrightarrow> source c \<noteq> [] \<Longrightarrow>
   c0 = c \<or> (\<exists>code off. c0 = emitError c code off) \<Longrightarrow> stepResult c r c'"
  by (auto simp: oneNode_eq advanced_emitError_left intro!: stepResult_pos
      dest!: parseBogusComment_advanced)

lemma step_continue_advance:
  "Some (andThen (advanceBy (emitError c code off) 3) (\<lambda>c. Inr (Continue, c))) =
     Some (Inr (r, c')) \<Longrightarrow> stepResult c r c'"
  by (auto simp: andThen_eq_Inr advanced_emitError_left intro!: stepResult_pos exI [of _ 3]
      dest!: advanceBy_advanced)

lemma step_continue_tag:
  "Some (andThen (parseTag (emitError c code off) End p) (\<lambda>r. Inr (Continue, snd r))) =
     Some (Inr (r, c')) \<Longrightarrow> stepResult c r c'"
  by (auto simp: andThen_eq_Inr advanced_emitError_left intro!: stepResult_pos
      dest!: parseTag_advanced(1))

lemma step_element:
  "andThenF (parseElement P c anc) (\<lambda>r. Some (Inr (OneNode (fst r), snd r))) =
     Some (Inr (r, c')) \<Longrightarrow> advancing P \<Longrightarrow> stepResult c r c'"
  by (auto simp: andThenF_eq_Some_Inr intro!: stepResult_pos dest: parseElement_advanced)

lemma step_cdata:
  "andThenF (parseCDATA P c anc) (\<lambda>r. Some (Inr (ManyNodes (fst r), snd r))) =
     Some (Inr (r, c')) \<Longrightarrow> advancing P \<Longrightarrow> stepResult c r c'"
  by (auto simp: andThenF_eq_Some_Inr intro!: stepResult_pos dest: parseCDATA_advanced)

lemma parseChild_interpolation:
  assumes "Some (andThen (parseInterpolation c mode)
             (\<lambda>r. Inr (case fst r of None \<Rightarrow> NoNode | Some nd \<Rightarrow> OneNode nd, snd r))) =
           Some (Inr (r, c'))"
  shows "stepResult c r c'"
proof -
  from assms obtain x where x: "parseInterpolation c mode = Inr (x, c')"
    and r: "r = (case x of None \<Rightarrow> NoNode | Some nd \<Rightarrow> OneNode nd)"
    by (auto simp: andThen_eq_Inr)
  from parseInterpolation_advanced [OF x] r show ?thesis
    unfolding stepResult_def by (cases x) auto
qed

lemma parseChild_advanced:
  assumes P: "advancing P" and r: "parseChild P c mode anc = Some (Inr (r, c'))"
    and ne: "source c \<noteq> []"
  shows "stepResult c r c'"
proof (cases "startsWith (source c) (fst (delimiters (options c)))")
  case True
  with r show ?thesis by (auto simp: parseChild_def intro: parseChild_interpolation)
next
  case False
  note ni = this
  show ?thesis
  proof (cases "mode = DATA \<and> charAt (source c) 0 = Some 60")
    case False
    with ni r have "r = NoNode" "c' = c" by (auto simp: parseChild_def)
    then show ?thesis by (simp add: stepResult_NoNode)
  next
    case True
    from ni True r ne P show ?thesis
      unfolding parseChild_def
      by (auto split: if_splits
          intro: oneNode_comment oneNode_bogus step_continue_advance step_continue_tag
            step_element step_cdata
          intro!: stepResult_NoNode)
  qed
qed


lemma isEnd_false:
  "\<not> isEnd c mode anc \<Longrightarrow>
     source c \<noteq> [] \<and> (mode = CDATA \<longrightarrow> \<not> startsWith (source c) [93, 93, 62])"
  by (auto simp: isEnd_def split: if_splits)

text \<open>One round of the loop: the child and its push.\<close>

lemma parseChildren_round:
  assumes P: "advancing P" and ne: "\<not> isEnd c mode anc"
    and r: "parseChild P c mode anc = Some (Inr r)"
    and p: "pushChild mode nodes r = Inr (res, c')"
  shows "\<exists>n. advanced c n c' \<and> (delimitersOK (options c) \<longrightarrow> 0 < n)"
proof -
  obtain x c1 where rx: "r = (x, c1)" by (cases r)
  from isEnd_false [OF ne] have src: "source c \<noteq> []"
    and cd: "mode = CDATA \<longrightarrow> \<not> startsWith (source c) [93, 93, 62]" by simp_all
  from parseChild_advanced [OF P r [unfolded rx] src] obtain n where
    n: "advanced c n c1" "x = NoNode \<longrightarrow> n = 0"
       "delimitersOK (options c) \<longrightarrow> x \<noteq> NoNode \<longrightarrow> 0 < n"
    unfolding stepResult_def by blast
  show ?thesis
  proof (cases "x = NoNode")
    case False
    with p rx have "c' = c1" by (cases x) (auto simp: pushChild_def)
    with n False show ?thesis by blast
  next
    case True
    with p rx obtain t where t: "parseText c1 mode = Inr (t, c')"
      by (auto simp: pushChild_def andThen_eq_Inr)
    from n True have s1: "source c1 = source c" by (simp add: advanced_def)
    from parseText_advanced [OF t] src cd s1 obtain m where "0 < m" "advanced c1 m c'"
      by auto
    with n(1) have "advanced c (n + m) c'" "0 < n + m"
      by (auto intro: advanced_trans)
    then show ?thesis by blast
  qed
qed

lemma parseChildren_loop_advanced:
  "parseChildren_loop fuel c mode anc nodes = Some (Inr (res, c')) \<Longrightarrow> \<exists>n. advanced c n c'"
proof (induction fuel arbitrary: c mode anc nodes res c')
  case 0
  then show ?case by simp
next
  case (Suc fuel)
  have P: "advancing (parseChildren fuel)"
    unfolding advancing_def parseChildren_def using Suc.IH by blast
  show ?case
  proof (cases "isEnd c mode anc")
    case True
    with Suc.prems have "c' = c" by (simp add: parseChildren_loop_Suc)
    then show ?thesis by simp
  next
    case False
    with Suc.prems obtain r nc where
      r: "parseChild (parseChildren fuel) c mode anc = Some (Inr r)" and
      p: "pushChild mode nodes r = Inr nc" and
      rec: "parseChildren_loop fuel (snd nc) mode anc (fst nc) = Some (Inr (res, c'))"
      by (auto simp: parseChildren_loop_Suc andThenF_eq_Some_Inr split: if_splits)
    obtain res1 c1 where nc: "nc = (res1, c1)" by (cases nc)
    from parseChildren_round [OF P False r p [unfolded nc]] obtain n where "advanced c n c1"
      by blast
    moreover from Suc.IH [OF rec] nc obtain m where "advanced c1 m c'" by auto
    ultimately show ?thesis by (blast intro: advanced_trans)
  qed
qed

lemma advancing_parseChildren: "advancing (parseChildren fuel)"
  unfolding advancing_def parseChildren_def using parseChildren_loop_advanced by blast

text \<open>The loop returns only where \<open>isEnd\<close> holds.\<close>

lemma parseChildren_loop_isEnd:
  "parseChildren_loop fuel c mode anc nodes = Some (Inr (res, c')) \<Longrightarrow> isEnd c' mode anc"
proof (induction fuel arbitrary: c nodes)
  case 0
  then show ?case by simp
next
  case (Suc fuel)
  show ?case
  proof (cases "isEnd c mode anc")
    case True
    with Suc.prems show ?thesis by (simp add: parseChildren_loop_Suc)
  next
    case False
    with Suc.prems obtain nc where
      "parseChildren_loop fuel (snd nc) mode anc (fst nc) = Some (Inr (res, c'))"
      by (auto simp: parseChildren_loop_Suc andThenF_eq_Some_Inr split: if_splits)
    then show ?thesis by (rule Suc.IH)
  qed
qed

text \<open>Totality.\<close>

lemma andThenF_not_None:
  "m \<noteq> None \<Longrightarrow> (\<And>x. f x \<noteq> None) \<Longrightarrow> andThenF m f \<noteq> None"
  by (cases m) (auto simp: andThenF_def split: sum.splits)

lemma parseCDATA_total:
  assumes "totalBelow P (options c) (length (source c))" "source c \<noteq> []"
  shows "parseCDATA P c anc \<noteq> None"
proof (cases "advanceBy c 9")
  case (Inl e)
  then show ?thesis by (simp add: parseCDATA_def)
next
  case (Inr c1)
  from advanceBy_advanced [OF Inr] assms(2)
  have "options c1 = options c" "length (source c1) < length (source c)"
    by (simp_all add: advanced_def)
  with assms(1) have "P c1 CDATA anc \<noteq> None" by (simp add: totalBelow_def)
  then have "andThenF (P c1 CDATA anc)
     (\<lambda>r. if source (snd r) = [] then Some (Inr (fst r, emitError (snd r) EOF_IN_CDATA 0))
           else if assertFails (snd r) (startsWith (source (snd r)) [93, 93, 62])
           then Some (Inl AssertionError)
           else Some (andThen (advanceBy (snd r) 3) (\<lambda>c3. Inr (fst r, c3)))) \<noteq> None"
    by (rule andThenF_not_None) simp
  with Inr show ?thesis
    by (simp add: parseCDATA_def)
qed

lemma parseElement_total:
  assumes "totalBelow P (options c) (length (source c))"
  shows "parseElement P c anc \<noteq> None"
proof (cases "parseTag c Start (lastOf anc)")
  case (Inl e)
  then show ?thesis by (simp add: parseElement_def)
next
  case (Inr x)
  obtain el c1 where x: "x = (el, c1)" by (cases x)
  from parseTag_advanced [OF Inr [unfolded x]]
  have "options c1 = options c" "length (source c1) < length (source c)"
    by (auto simp: advanced_def)
  with assms have "P c1 (getTextMode (options c1) (tag el) (ns el)) (anc @ [el]) \<noteq> None"
    by (simp add: totalBelow_def)
  then have "andThenF (P c1 (getTextMode (options c1) (tag el) (ns el)) (anc @ [el]))
                 (\<lambda>r. Some (closeElement (snd r) (lastOf anc) el (fst r))) \<noteq> None"
    by (rule andThenF_not_None) simp
  with Inr x show ?thesis
    by (simp add: parseElement_def)
qed

lemma parseChild_total:
  assumes "totalBelow P (options c) (length (source c))" "source c \<noteq> []"
  shows "parseChild P c mode anc \<noteq> None"
proof -
  have e: "andThenF (parseElement P c anc) (\<lambda>r. Some (Inr (OneNode (fst r), snd r))) \<noteq> None"
    using parseElement_total [OF assms(1)] by (rule andThenF_not_None) simp
  have d: "andThenF (parseCDATA P c anc) (\<lambda>r. Some (Inr (ManyNodes (fst r), snd r))) \<noteq> None"
    using parseCDATA_total [OF assms] by (rule andThenF_not_None) simp
  show ?thesis
    unfolding parseChild_def using e d by (simp add: oneNode_def)
qed

lemma parseChildren_loop_total:
  "delimitersOK (options c) \<Longrightarrow> length (source c) < fuel \<Longrightarrow>
   parseChildren_loop fuel c mode anc nodes \<noteq> None"
proof (induction fuel arbitrary: c mode anc nodes)
  case 0
  then show ?case by simp
next
  case (Suc fuel)
  show ?case
  proof (cases "isEnd c mode anc \<or> assertFails c (0 < length (source c))")
    case True
    then show ?thesis by (auto simp: parseChildren_loop_Suc)
  next
    case False
    then have ne: "\<not> isEnd c mode anc" by simp
    from isEnd_false [OF ne] have src: "source c \<noteq> []" by simp
    have tb: "totalBelow (parseChildren fuel) (options c) (length (source c))"
      unfolding totalBelow_def parseChildren_def
      using Suc.IH Suc.prems by auto
    have "parseChild (parseChildren fuel) c mode anc \<noteq> None"
      using tb src by (rule parseChild_total)
    then obtain a where Some: "parseChild (parseChildren fuel) c mode anc = Some a"
      by blast
    show ?thesis
    proof -
      show ?thesis
      proof (cases a)
        case (Inl e)
        with Some False show ?thesis by (simp add: parseChildren_loop_Suc)
      next
        case (Inr r)
        show ?thesis
        proof (cases "pushChild mode nodes r")
          case (Inl e)
          with Some Inr False show ?thesis by (simp add: parseChildren_loop_Suc)
        next
          case (Inr nc)
          obtain res1 c1 where nc: "nc = (res1, c1)" by (cases nc)
          from parseChildren_round [OF advancing_parseChildren ne
              Some [unfolded \<open>a = Inr r\<close>] Inr [unfolded nc]] Suc.prems(1)
          obtain n where n: "advanced c n c1" "0 < n" by blast
          from advanced_length [OF n src] Suc.prems(2) have "length (source c1) < fuel"
            by arith
          moreover from n Suc.prems(1) have "delimitersOK (options c1)"
            by (simp add: advanced_def)
          ultimately have "delimitersOK (options c1)" "length (source c1) < fuel" by simp_all
          from Suc.IH [OF this] have "parseChildren_loop fuel c1 mode anc res1 \<noteq> None" .
          with Some \<open>a = Inr r\<close> Inr nc False show ?thesis
            by (simp add: parseChildren_loop_Suc)
        qed
      qed
    qed
  qed
qed

text \<open>More fuel does not change a result.\<close>

lemma andThenF_mono:
  "andThenF m f = Some r \<Longrightarrow> (\<And>x. m = Some x \<Longrightarrow> m' = Some x) \<Longrightarrow>
   (\<And>x y. f x = Some y \<Longrightarrow> f' x = Some y) \<Longrightarrow> andThenF m' f' = Some r"
  by (cases m) (auto simp: andThenF_def split: sum.splits)

lemma parseCDATA_mono:
  assumes "\<And>c m a r. P c m a = Some r \<Longrightarrow> Q c m a = Some r"
    and "parseCDATA P c anc = Some r"
  shows "parseCDATA Q c anc = Some r"
  using assms(2) unfolding parseCDATA_def
  by (auto split: if_splits sum.splits elim!: andThenF_mono intro: assms(1))

lemma parseElement_mono:
  assumes "\<And>c m a r. P c m a = Some r \<Longrightarrow> Q c m a = Some r"
    and "parseElement P c anc = Some r"
  shows "parseElement Q c anc = Some r"
  using assms(2) unfolding parseElement_def
  by (auto split: if_splits sum.splits prod.splits elim!: andThenF_mono intro: assms(1))

lemma parseChild_mono:
  assumes "\<And>c m a r. P c m a = Some r \<Longrightarrow> Q c m a = Some r"
    and "parseChild P c mode anc = Some r"
  shows "parseChild Q c mode anc = Some r"
proof -
  have e: "\<And>f r. andThenF (parseElement P c anc) f = Some r \<Longrightarrow>
                 andThenF (parseElement Q c anc) f = Some r"
    by (erule andThenF_mono) (auto intro: parseElement_mono [OF assms(1)])
  have d: "\<And>f r. andThenF (parseCDATA P c anc) f = Some r \<Longrightarrow>
                 andThenF (parseCDATA Q c anc) f = Some r"
    by (erule andThenF_mono) (auto intro: parseCDATA_mono [OF assms(1)])
  show ?thesis
    using assms(2) unfolding parseChild_def
    by (auto split: if_splits dest: e d)
qed

lemma parseChildren_loop_mono:
  "parseChildren_loop fuel c mode anc nodes = Some r \<Longrightarrow>
   parseChildren_loop (fuel + k) c mode anc nodes = Some r"
proof (induction fuel arbitrary: c mode anc nodes r)
  case 0
  then show ?case by simp
next
  case (Suc fuel)
  have P: "\<And>c m a r. parseChildren fuel c m a = Some r \<Longrightarrow> parseChildren (fuel + k) c m a = Some r"
    unfolding parseChildren_def by (rule Suc.IH)
  show ?case
  proof (cases "isEnd c mode anc \<or> assertFails c (0 < length (source c))")
    case True
    with Suc.prems show ?thesis by (auto simp: parseChildren_loop_Suc)
  next
    case False
    with Suc.prems have
      "andThenF (parseChild (parseChildren fuel) c mode anc)
         (\<lambda>r. andThenF (Some (pushChild mode nodes r))
                 (\<lambda>nc. parseChildren_loop fuel (snd nc) mode anc (fst nc))) = Some r"
      by (simp add: parseChildren_loop_Suc)
    then have
      "andThenF (parseChild (parseChildren (fuel + k)) c mode anc)
         (\<lambda>r. andThenF (Some (pushChild mode nodes r))
                 (\<lambda>nc. parseChildren_loop (fuel + k) (snd nc) mode anc (fst nc))) = Some r"
    proof (rule andThenF_mono)
      fix x assume "parseChild (parseChildren fuel) c mode anc = Some x"
      then show "parseChild (parseChildren (fuel + k)) c mode anc = Some x"
        using P by (rule parseChild_mono [of "parseChildren fuel" "parseChildren (fuel + k)", rotated])
    next
      fix x y
      assume "andThenF (Some (pushChild mode nodes x))
                (\<lambda>nc. parseChildren_loop fuel (snd nc) mode anc (fst nc)) = Some y"
      then show "andThenF (Some (pushChild mode nodes x))
                (\<lambda>nc. parseChildren_loop (fuel + k) (snd nc) mode anc (fst nc)) = Some y"
        by (rule andThenF_mono) (simp_all add: Suc.IH)
    qed
    with False show ?thesis by (simp add: parseChildren_loop_Suc)
  qed
qed

lemma parse_mono:
  "parse fuel isDev lower content opts = Some r \<Longrightarrow>
   parse (fuel + k) isDev lower content opts = Some r"
proof -
  assume a: "parse fuel isDev lower content opts = Some r"
  then obtain x where x: "parseChildren fuel (createParserContext isDev lower content opts) DATA [] = Some x"
    unfolding parse_def by (auto split: option.splits)
  then have "parseChildren (fuel + k) (createParserContext isDev lower content opts) DATA [] = Some x"
    unfolding parseChildren_def by (rule parseChildren_loop_mono)
  with a x show ?thesis unfolding parse_def by simp
qed

section \<open>Diagnostic positions\<close>

text \<open>
  C10. Every diagnostic built by \<open>emitError\<close> has its start equal to its end and an empty
  source, and nothing else of the context changes. The reported position is the cursor
  with the given character offset added to both \<open>offset\<close> and \<open>column\<close> and with \<open>line\<close>
  unchanged, whatever the skipped characters are: at a context that stands before a
  newline, the diagnostic at offset 1 is reported on line 1, column 2, while walking over
  the skipped newline leads to line 2, column 1.
\<close>

theorem emitError_position:
  "emitError c code off =
     c\<lparr>errors := errors c @
         [\<lparr>err_code = code,
           err_loc = \<lparr>loc_start = \<lparr>offset = offset c + off, line = line c,
                                   column = column c + off\<rparr>,
                      loc_end = \<lparr>offset = offset c + off, line = line c,
                                 column = column c + off\<rparr>,
                      loc_source = []\<rparr>\<rparr>]\<rparr> \<and>
   map (loc_start \<circ> err_loc)
     (errors (emitError (createParserContext True asciiLower [10, 120] defaultParserOptions)
                EOF_BEFORE_TAG_NAME 1)) =
     [\<lparr>offset = 1, line = 1, column = 2\<rparr>] \<and>
   advancePositionWithClone
     (getCursor (createParserContext True asciiLower [10, 120] defaultParserOptions))
     [10, 120] 1 = \<lparr>offset = 1, line = 2, column = 1\<rparr>"
  by (simp add: emitError_def getCursor_def Let_def createParserContext_def
      advancePositionWithClone_def advancePositionWithMutation_def)

section \<open>Positions inside an attribute name\<close>

text \<open>
  \<open>getNewPosition\<close> passes \<open>originalSource.slice(start.offset, numberOfCharacters)\<close>: the
  second argument of \<open>slice\<close> is an end index, so the string handed to the advance is
  \<open>originalSource[start.offset .. numberOfCharacters)\<close>, a prefix of the characters that are
  skipped (empty when \<open>numberOfCharacters \<le> start.offset\<close>). Where the skipped characters
  hold no newline the result is still the advanced position.
\<close>

lemma walkChars_no_newline:
  "10 \<notin> set cs \<Longrightarrow> walkChars lc cs = (fst lc, snd lc + length cs)"
  by (induction cs arbitrary: lc) auto

lemma getNewPosition_no_newline:
  assumes "offset start + n \<le> length (originalSource c)"
    and "10 \<notin> set (slice (originalSource c) (offset start) (offset start + n))"
  shows "getNewPosition c start n =
           advancePositionWithClone start
             (slice (originalSource c) (offset start) (offset start + n)) n"
proof -
  let ?o = "originalSource c"
  have sub: "set (take n (slice ?o (offset start) n)) \<subseteq>
             set (slice ?o (offset start) (offset start + n))"
    unfolding slice_def
    by (metis add_diff_cancel_left' diff_le_self set_take_subset set_take_subset_set_take
        subset_trans)
  with assms(2) have nn: "10 \<notin> set (take n (slice ?o (offset start) n))"
    by blast
  have len2: "length (slice ?o (offset start) (offset start + n)) = n"
    using assms(1) by (simp add: slice_def)
  have len1: "length (slice ?o (offset start) n) \<le> n"
    by (simp add: slice_def)
  show ?thesis
    using assms(2) nn len1 len2
    by (simp add: getNewPosition_def advancePositionWithClone_def
        advancePositionWithMutation_def walkChars_no_newline)
qed

text \<open>
  C1. The claim is that the argument's span computed from \<open>getNewPosition\<close> covers exactly
  the argument token inside the attribute name. \<open>parseAttribute\<close> takes as the offset of the
  argument \<open>name.split(match[2], 2).shift().length\<close>, the index of the first occurrence of the
  argument's text in the name. In \<open><p v-on:on="x"/>\<close> the name \<open>v-on:on\<close> starts at offset 3
  and its argument \<open>on\<close> stands at the offsets 8 to 10; the first occurrence of \<open>on\<close> is the
  one in \<open>v-on\<close>, and the span of the argument is 5 to 7, line 1, columns 6 to 8. In
  \<open><p @click.stop="f"/>\<close> the span of \<open>click\<close> is 4 to 9, where the argument stands. Both
  hold in every build and for every \<open>toLowerCase\<close>.
\<close>

theorem directive_argument_span_first_occurrence:
  "(case parse (Suc (length (str ''<p v-on:on=\"x\"/>''))) isDev lower
           (str ''<p v-on:on=\"x\"/>'') defaultParserOptions of
      Some (Inr (ROOT [ELEMENT n t ty [DIRECTIVE dn e (Some a) ms dl] sc cs l] rl, es)) \<Rightarrow>
        Some (dn, exp_content a, loc_start (exp_loc a), loc_end (exp_loc a),
              slice (str ''<p v-on:on=\"x\"/>'') 8 10, es)
    | _ \<Rightarrow> None) =
   Some (str ''on'', str ''on'', \<lparr>offset = 5, line = 1, column = 6\<rparr>,
         \<lparr>offset = 7, line = 1, column = 8\<rparr>, str ''on'', []) \<and>
   (case parse (Suc (length (str ''<p @click.stop=\"f\"/>''))) isDev lower
           (str ''<p @click.stop=\"f\"/>'') defaultParserOptions of
      Some (Inr (ROOT [ELEMENT n t ty [DIRECTIVE dn e (Some a) ms dl] sc cs l] rl, es)) \<Rightarrow>
        Some (dn, exp_content a, loc_start (exp_loc a), loc_end (exp_loc a),
              slice (str ''<p @click.stop=\"f\"/>'') 4 9, es)
    | _ \<Rightarrow> None) =
   Some (str ''on'', str ''click'', \<lparr>offset = 4, line = 1, column = 5\<rparr>,
         \<lparr>offset = 9, line = 1, column = 10\<rparr>, str ''click'', [])"
  by (simp add: parser_eval cong: let_weak_cong)

section \<open>Numeric character references\<close>

text \<open>The controls of the HTML standard: the C0 controls, and the code points from DELETE
  (\<open>0x7f\<close>) to the last C1 control (\<open>0x9f\<close>).\<close>

definition isControl :: "nat \<Rightarrow> bool" where
  "isControl cp = (cp \<le> 0x1f \<or> (0x7f \<le> cp \<and> cp \<le> 0x9f))"

lemma execHead_numeric:
  "execHead ([38, 35] @ (if hex then [120] else []) @ d # ds) =
     Some (0, [38, 35] @ (if hex then [120] else []))" if "isDigit d \<or> hex"
  using that by (auto simp: isDigit_def)

lemma takeWhile_digits:
  "list_all P ds \<Longrightarrow> \<not> P x \<Longrightarrow> takeWhile P (ds @ x # rest) = ds"
  by (induction ds) auto

lemma charAt_append: "charAt (xs @ y # ys) (length xs) = Some y"
  by (simp add: charAt_def)

lemma execHead_prefix:
  "38 \<notin> set pre \<Longrightarrow>
   execHead (pre @ xs) = map_option (\<lambda>(i, h). (length pre + i, h)) (execHead xs)"
  by (induction pre) (auto simp: option.map_comp comp_def split_def option.map_ident)

text \<open>The digits of a numeric reference are all the digits that follow the head; the
  semicolon after them is optional.\<close>

definition afterDigits :: "bool \<Rightarrow> jsstring \<Rightarrow> bool" where
  "afterDigits hex rest =
     (case rest of [] \<Rightarrow> True | r # rs \<Rightarrow> \<not> (if hex then isHexDigit r else isDigit r))"

definition hasSemicolon :: "jsstring \<Rightarrow> bool" where
  "hasSemicolon rest = (case rest of [] \<Rightarrow> False | r # rs \<Rightarrow> r = 59)"

lemma takeWhile_all: "list_all P ds \<Longrightarrow> (case rest of [] \<Rightarrow> True | r # rs \<Rightarrow> \<not> P r) \<Longrightarrow>
  takeWhile P (ds @ rest) = ds"
  by (induction ds) (auto split: list.splits)

lemma execBody_numeric:
  assumes "ds \<noteq> []" "list_all (if hex then isHexDigit else isDigit) ds" "afterDigits hex rest"
  shows "execBody hex ([38, 35] @ (if hex then [120] else []) @ ds @ rest) =
           Some (ds, (if hex then 3 else 2) + length ds + (if hasSemicolon rest then 1 else 0))"
proof -
  have tw: "takeWhile (if hex then isHexDigit else isDigit) (ds @ rest) = ds"
    using assms(2,3) by (intro takeWhile_all) (auto simp: afterDigits_def split: list.splits)
  have ch: "(charAt (ds @ rest) (length ds) = Some 59) = hasSemicolon rest"
    by (cases rest) (simp_all add: charAt_def hasSemicolon_def)
  show ?thesis
    using assms(1) tw ch by (cases hex) (simp_all add: execBody_def Let_def)
qed

lemma advanceBy_within:
  "n \<le> length (source c) \<Longrightarrow>
   \<exists>c'. advanceBy c n = Inr c' \<and> advanced c n c' \<and> errors c' = errors c"
  by (auto simp: advanceBy_def assertFails_def advanced_def advancePositionWithMutation_def
      split: prod.splits)

lemma parseNumericReference_ok:
  assumes src: "source c = [38, 35] @ (if hex then [120] else []) @ ds @ rest"
    and ds: "ds \<noteq> []" "list_all (if hex then isHexDigit else isDigit) ds"
    and ad: "afterDigits hex rest"
  shows "\<exists>c'. parseNumericReference c ([38, 35] @ (if hex then [120] else [])) =
           Inr (fromCodePoint (snd (checkCodePoint (parseInt ds (if hex then 16 else 10)))), c') \<and>
           advanced c ((if hex then 3 else 2) + length ds + (if hasSemicolon rest then 1 else 0)) c' \<and>
           map err_code (errors c') = map err_code (errors c) @
             (case fst (checkCodePoint (parseInt ds (if hex then 16 else 10))) of
                None \<Rightarrow> [] | Some e \<Rightarrow> [e]) @
             (if hasSemicolon rest then [] else [MISSING_SEMICOLON_AFTER_CHARACTER_REFERENCE])"
proof -
  let ?cc = "checkCodePoint (parseInt ds (if hex then 16 else 10))"
  let ?len = "(if hex then 3 else 2) + length ds + (if hasSemicolon rest then 1 else 0)"
  let ?c0 = "case fst ?cc of None \<Rightarrow> c | Some code \<Rightarrow> emitError c code 0"
  have eb: "execBody hex (source c) = Some (ds, ?len)"
    unfolding src using ds ad by (rule execBody_numeric)
  have s0: "source ?c0 = source c" by (cases "fst ?cc") simp_all
  have "?len \<le> length (source ?c0)"
    unfolding s0 src by (cases rest) (auto simp: hasSemicolon_def)
  from advanceBy_within [OF this] obtain c1 where
    c1: "advanceBy ?c0 ?len = Inr c1" "advanced ?c0 ?len c1" "errors c1 = errors ?c0"
    by blast
  have semi: "(charAt (source c) (?len - 1) = Some 59) = hasSemicolon rest"
  proof (cases "hasSemicolon rest")
    case True
    then obtain rs where r: "rest = 59 # rs" by (cases rest) (auto simp: hasSemicolon_def)
    have "charAt (([38, 35] @ (if hex then [120] else []) @ ds) @ 59 # rs)
            (length ([38, 35] @ (if hex then [120] else []) @ ds)) = Some 59"
      by (rule charAt_append)
    with True r show ?thesis by (cases hex) (simp_all add: src eval_nat_numeral)
  next
    case False
    obtain d ds' where "ds = ds' @ [d]" using ds(1) by (cases ds rule: rev_cases) auto
    moreover from this ds(2) have "d \<noteq> 59"
      by (auto simp: isHexDigit_def isDigit_def split: if_splits)
    moreover have "charAt (([38, 35] @ (if hex then [120] else []) @ ds') @ d # rest)
            (length ([38, 35] @ (if hex then [120] else []) @ ds')) = Some d"
      by (rule charAt_append)
    ultimately show ?thesis using False by (cases hex) (simp_all add: src eval_nat_numeral)
  qed
  let ?c' = "if hasSemicolon rest then c1
             else emitError c1 MISSING_SEMICOLON_AFTER_CHARACTER_REFERENCE 0"
  have hexeq: "([38, 35] @ (if hex then [120] else []) = [38, 35, 120]) = hex"
    by auto
  have "parseNumericReference c ([38, 35] @ (if hex then [120] else [])) =
          Inr (fromCodePoint (snd ?cc), ?c')"
    unfolding parseNumericReference_def hexeq eb using c1(1) semi
    by (cases ?cc) (auto split: option.splits)
  moreover have "advanced c ?len ?c'"
  proof -
    have a0: "advanced ?c0 n x = advanced c n x" for n x
      by (cases "fst ?cc") (simp_all add: advanced_emitError_left)
    from c1(2) have "advanced c ?len c1" by (simp only: a0)
    then show ?thesis by (cases "hasSemicolon rest") (simp_all only: if_True if_False advanced_emitError)
  qed
  moreover have "map err_code (errors ?c') = map err_code (errors c) @
             (case fst ?cc of None \<Rightarrow> [] | Some e \<Rightarrow> [e]) @
             (if hasSemicolon rest then [] else [MISSING_SEMICOLON_AFTER_CHARACTER_REFERENCE])"
    using c1(3) by (cases "fst ?cc") auto
  ultimately show ?thesis by blast
qed

text \<open>One round of the loop of \<open>parseTextData\<close> that meets a numeric reference with digits:
  the text before it holds no \<open>&\<close>, and the \<open>&\<close> stands before the end of the text.\<close>

lemma parseTextData_loop_numeric:
  assumes src: "source c = pre @ [38, 35] @ (if hex then [120] else []) @ ds @ rest"
    and pre: "38 \<notin> set pre"
    and ds: "ds \<noteq> []" "list_all (if hex then isHexDigit else isDigit) ds"
    and ad: "afterDigits hex rest"
    and inside: "offset c + length pre < e"
  shows "\<exists>c'. parseTextData_loop c e mode t =
             parseTextData_loop c' e mode
               (t @ pre @ fromCodePoint (snd (checkCodePoint (parseInt ds (if hex then 16 else 10))))) \<and>
           advanced c (length pre + (if hex then 3 else 2) + length ds +
                       (if hasSemicolon rest then 1 else 0)) c' \<and>
           map err_code (errors c') = map err_code (errors c) @
             (case fst (checkCodePoint (parseInt ds (if hex then 16 else 10))) of
                None \<Rightarrow> [] | Some e \<Rightarrow> [e]) @
             (if hasSemicolon rest then [] else [MISSING_SEMICOLON_AFTER_CHARACTER_REFERENCE])"
proof -
  let ?h = "[38, 35] @ (if hex then [120] else [])"
  let ?cp = "parseInt ds (if hex then 16 else 10)"
  obtain d ds' where dd: "ds = d # ds'" using ds(1) by (cases ds) auto
  have "isDigit d \<or> hex" using ds(2) dd by (auto split: if_splits)
  then have "execHead (?h @ ds @ rest) = Some (0, ?h)"
    unfolding dd using execHead_numeric [of d hex "ds' @ rest"] by simp
  then have eh: "execHead (source c) = Some (length pre, ?h)"
    unfolding src using execHead_prefix [OF pre, of "?h @ ds @ rest"] by simp
  have "length pre \<le> length (source c)" by (simp add: src)
  from advanceBy_within [OF this] obtain c1 where
    c1: "advanceBy c (length pre) = Inr c1" "advanced c (length pre) c1" "errors c1 = errors c"
    by blast
  have s1: "source c1 = [38, 35] @ (if hex then [120] else []) @ ds @ rest"
    using c1(2) by (simp add: advanced_def src)
  from parseNumericReference_ok [OF s1 ds ad] obtain c' where
    pn: "parseNumericReference c1 ?h = Inr (fromCodePoint (snd (checkCodePoint ?cp)), c')"
    and adv: "advanced c1 ((if hex then 3 else 2) + length ds +
                           (if hasSemicolon rest then 1 else 0)) c'"
    and errs: "map err_code (errors c') = map err_code (errors c1) @
             (case fst (checkCodePoint ?cp) of None \<Rightarrow> [] | Some e \<Rightarrow> [e]) @
             (if hasSemicolon rest then [] else [MISSING_SEMICOLON_AFTER_CHARACTER_REFERENCE])"
    by blast
  have h38: "?h \<noteq> [38]" by simp
  have lt: "offset c < e" using inside by simp
  have sl: "slice (source c) 0 (length pre) = pre" by (simp add: src slice_def)
  have "parseTextData_loop c e mode t =
          parseTextData_loop c' e mode (t @ pre @ fromCodePoint (snd (checkCodePoint ?cp)))"
    using lt inside h38
    by (subst parseTextData_loop.simps) (simp add: eh c1(1) pn sl del: append.simps)
  moreover from advanced_trans [OF c1(2) adv]
  have "advanced c (length pre + (if hex then 3 else 2) + length ds +
                       (if hasSemicolon rest then 1 else 0)) c'"
    by (simp add: add.assoc)
  ultimately show ?thesis using errs c1(3) by auto
qed

lemma and_fffe: "cp \<le> 0x9f \<Longrightarrow> (cp::nat) AND 0xfffe \<noteq> 0xfffe"
proof -
  assume a: "cp \<le> 0x9f"
  have "int (cp AND 0xfffe) \<le> int cp" by (simp add: of_nat_and_eq)
  with a show ?thesis by simp
qed

lemma checkCodePoint_control:
  "fst (checkCodePoint cp) = Some CONTROL_CHARACTER_REFERENCE \<longleftrightarrow>
     isControl cp \<and> cp \<noteq> 0 \<and> (\<not> isSpace cp \<or> cp = 13)"
  using and_fffe [of cp]
  by (auto simp: checkCodePoint_def isControl_def isSpace_def)

lemma checkCodePoint_remap:
  "isControl cp \<Longrightarrow> cp \<noteq> 0 \<Longrightarrow> \<not> isSpace cp \<or> cp = 13 \<Longrightarrow>
   snd (checkCodePoint cp) = (case map_of CCR_REPLACEMENTS cp of None \<Rightarrow> cp | Some r \<Rightarrow> r)"
  using and_fffe [of cp]
  by (auto simp: checkCodePoint_def isControl_def isSpace_def)

lemma CCR_range: "map_of CCR_REPLACEMENTS cp = Some r \<Longrightarrow> r < 0x10000"
  by (auto simp: CCR_REPLACEMENTS_def split: if_splits)





section \<open>Named character references in attribute values\<close>

lemma lookupReference_amp:
  assumes src: "source c = [38, 97, 109, 112] @ ch # rest"
    and tbl: "namedCharacterReferences (options c) = namedCharacterReferences defaultParserOptions"
    and mx: "maxCRNameLength c = 5"
  shows "lookupReference c [] None (maxCRNameLength c) =
           (if ch = 59 then ([97, 109, 112, 59], Some [38]) else ([97], None))"
  by (cases rest)
    (simp_all add: mx lookupReference.simps src tbl substr_def defaultParserOptions_def str_def
      isTruthy_def lookupProperty_def objectPrototype_def)

lemma parseNamedReference_amp_semicolon:
  assumes src: "source c = [38, 97, 109, 112] @ 59 # rest"
    and tbl: "namedCharacterReferences (options c) = namedCharacterReferences defaultParserOptions"
    and mx: "maxCRNameLength c = 5"
    and adv: "advanceBy c 5 = Inr c'"
  shows "parseNamedReference c ATTRIBUTE_VALUE = Inr ([38], c')"
proof -
  have a1: "charAt (source c) 1 = Some 97" by (simp add: src charAt_def)
  have n: "Suc (length [97, 109, 112, 59::nat]) = 5" by simp
  show ?thesis
    unfolding parseNamedReference_def lookupReference_amp [OF src tbl mx] a1
    by (simp add: isLetter_def isTruthy_def endsWithChar_def adv n del: list.size length_Cons)
qed

lemma parseNamedReference_amp_other:
  assumes src: "source c = [38, 97, 109, 112] @ ch # rest"
    and tbl: "namedCharacterReferences (options c) = namedCharacterReferences defaultParserOptions"
    and mx: "maxCRNameLength c = 5"
    and ch: "ch \<noteq> 59"
    and adv: "advanceBy (emitError c UNKNOWN_NAMED_CHARACTER_REFERENCE 0) 2 = Inr c'"
  shows "parseNamedReference c ATTRIBUTE_VALUE = Inr ([38, 97], c')"
proof -
  have a1: "charAt (source c) 1 = Some 97" by (simp add: src charAt_def)
  have n: "Suc (length [97::nat]) = 2" by simp
  show ?thesis
    unfolding parseNamedReference_def lookupReference_amp [OF src tbl mx] a1
    by (simp add: isLetter_def isTruthy_def ch adv n del: list.size length_Cons)
qed

lemma advanceBy_ok: "n \<le> length (source c) \<Longrightarrow> \<exists>c'. advanceBy c n = Inr c' \<and> advanced c n c' \<and> errors c' = errors c"
  by (auto simp: advanceBy_def assertFails_def advanced_def advancePositionWithMutation_def
      split: prod.splits)

lemma execHead_none_before:
  "list_all (\<lambda>x. x \<noteq> 38) xs \<Longrightarrow> execHead (xs @ ys) = Some (i, h) \<Longrightarrow> length xs \<le> i"
proof (induction xs arbitrary: i)
  case Nil
  then show ?case by simp
next
  case (Cons x xs)
  from Cons.prems obtain j where "execHead (xs @ ys) = Some (j, h)" "i = Suc j"
    by (auto split: if_splits)
  with Cons.IH [of j] Cons.prems(1) show ?case by simp
qed

text \<open>With a table that also holds the name \<open>amp\<close> without a semicolon, as the full HTML
  table does, the test on the character after the name decides: in an attribute value
  \<open>&amp=\<close> stays as it is, \<open>&amp!\<close> is decoded, and in DATA mode \<open>&amp=\<close> is decoded.\<close>

lemma bare_amp_in_table:
  "map (\<lambda>(s, m).
          case parseTextData
                 (createParserContext True asciiLower s
                    (defaultParserOptions\<lparr>namedCharacterReferences :=
                       [(str ''amp'', str ''&''), (str ''amp;'', str ''&'')]\<rparr>))
                 (length s) m of
            Inl e \<Rightarrow> None
          | Inr (t, c) \<Rightarrow> Some (t, map err_code (errors c)))
     [(str ''&amp=1'', ATTRIBUTE_VALUE), (str ''&amp!'', ATTRIBUTE_VALUE), (str ''&amp=1'', DATA)] =
   [Some (str ''&amp=1'', []),
    Some (str ''&!'', [MISSING_SEMICOLON_AFTER_CHARACTER_REFERENCE]),
    Some (str ''&=1'', [MISSING_SEMICOLON_AFTER_CHARACTER_REFERENCE])]"
  by (simp add: parser_eval cong: let_weak_cong)

text \<open>With the default table, whose names all end with a semicolon, \<open>&amp\<close> that no
  semicolon follows matches no name: it is kept as it is whatever follows, and reported as an
  unknown reference.\<close>

lemma parseTextData_amp_default_table:
  assumes src: "source c = [38, 97, 109, 112] @ ch # rest"
    and tbl: "namedCharacterReferences (options c) = namedCharacterReferences defaultParserOptions"
    and mx: "maxCRNameLength c = 5"
    and ch: "ch \<noteq> 38"
  shows "\<exists>c'. parseTextData c 5 ATTRIBUTE_VALUE =
           Inr (if ch = 59 then [38] else [38, 97, 109, 112, ch], c') \<and>
           map err_code (errors c') = map err_code (errors c) @
             (if ch = 59 then [] else [UNKNOWN_NAMED_CHARACTER_REFERENCE])"
proof (cases "ch = 59")
  case True
  have "5 \<le> length (source c)" by (simp add: src)
  from advanceBy_ok [OF this] obtain c' where
    c': "advanceBy c 5 = Inr c'" "advanced c 5 c'" "errors c' = errors c" by blast
  have nr: "parseNamedReference c ATTRIBUTE_VALUE = Inr ([38], c')"
    using parseNamedReference_amp_semicolon [OF _ tbl mx c'(1)] src True by simp
  have eh: "execHead (source c) = Some (0, [38])" by (simp add: src)
  have l2: "parseTextData_loop c' (offset c + 5) ATTRIBUTE_VALUE [38] = Inr ([38], c')"
    using c'(2) by (subst parseTextData_loop.simps) (simp add: advanced_def)
  have "parseTextData_loop c (offset c + 5) ATTRIBUTE_VALUE [] = Inr ([38], c')"
    by (subst parseTextData_loop.simps) (simp add: eh nr l2 slice_def)
  with True c'(3) show ?thesis by (simp add: parseTextData_def)
next
  case False
  let ?c0 = "emitError c UNKNOWN_NAMED_CHARACTER_REFERENCE 0"
  have "2 \<le> length (source ?c0)" by (simp add: src)
  from advanceBy_ok [OF this] obtain c1 where
    c1: "advanceBy ?c0 2 = Inr c1" "advanced ?c0 2 c1" "errors c1 = errors ?c0" by blast
  have s1: "source c1 = [109, 112, ch] @ rest" "offset c1 = offset c + 2"
    using c1(2) by (simp_all add: advanced_def src)
  have "3 \<le> length (source c1)" by (simp add: s1)
  from advanceBy_ok [OF this] obtain c2 where
    c2: "advanceBy c1 3 = Inr c2" "advanced c1 3 c2" "errors c2 = errors c1" by blast
  have nr: "parseNamedReference c ATTRIBUTE_VALUE = Inr ([38, 97], c1)"
    using parseNamedReference_amp_other [OF src tbl mx False c1(1)] .
  have eh: "execHead (source c) = Some (0, [38])" by (simp add: src)
  have none: "(case execHead (source c1) of None \<Rightarrow> None
    | Some (i, h) \<Rightarrow> if offset c + 5 \<le> offset c1 + i then None else Some (i, h)) = None"
  proof (cases "execHead (source c1)")
    case None
    then show ?thesis by simp
  next
    case (Some ih)
    obtain i h where ih: "ih = (i, h)" by (cases ih)
    from Some ih have "execHead ([109, 112, ch] @ rest) = Some (i, h)" by (simp add: s1)
    from execHead_none_before [OF _ this] ch have "3 \<le> i" by simp
    with s1(2) show ?thesis unfolding Some ih by simp
  qed
  have l3: "parseTextData_loop c2 (offset c + 5) ATTRIBUTE_VALUE [38, 97, 109, 112, ch] =
              Inr ([38, 97, 109, 112, ch], c2)"
    using c2(2) s1 by (subst parseTextData_loop.simps) (simp add: advanced_def)
  have l2: "parseTextData_loop c1 (offset c + 5) ATTRIBUTE_VALUE [38, 97] =
              Inr ([38, 97, 109, 112, ch], c2)"
    apply (subst parseTextData_loop.simps)
    apply (simp only: none)
    apply (simp add: s1 c2 slice_def)
    done
  have "parseTextData_loop c (offset c + 5) ATTRIBUTE_VALUE [] = Inr ([38, 97, 109, 112, ch], c2)"
    by (subst parseTextData_loop.simps) (simp add: eh nr l2 slice_def)
  with False c1(3) c2(3) show ?thesis by (simp add: parseTextData_def)
qed



text \<open>The loop of \<open>lookupReference\<close> returns the longest name, of at most \<open>maxCRNameLength\<close>
  characters, whose value is truthy.\<close>

lemma lookupReference_longest:
  assumes "0 < j" "j \<le> len" "\<not> isTruthy v"
    and "isTruthy (lookupProperty (namedCharacterReferences (options c)) (substr (source c) 1 j))"
    and "\<forall>k. j < k \<and> k \<le> len \<longrightarrow>
           \<not> isTruthy (lookupProperty (namedCharacterReferences (options c))
                          (substr (source c) 1 k))"
  shows "lookupReference c name v len =
           (substr (source c) 1 j,
            lookupProperty (namedCharacterReferences (options c)) (substr (source c) 1 j))"
  using assms
proof (induction len arbitrary: name v)
  case 0
  then show ?case by simp
next
  case (Suc len)
  show ?case
  proof (cases "j = Suc len")
    case True
    with Suc.prems show ?thesis
      by (simp add: lookupReference.simps [of c name] lookupReference.simps [of c _ _ len])
  next
    case False
    with Suc.prems have j: "j \<le> len" by simp
    from Suc.prems False have
      nt: "\<not> isTruthy (lookupProperty (namedCharacterReferences (options c))
                          (substr (source c) 1 (Suc len)))"
      by simp
    from Suc.prems have "\<forall>k. j < k \<and> k \<le> len \<longrightarrow>
           \<not> isTruthy (lookupProperty (namedCharacterReferences (options c))
                          (substr (source c) 1 k))"
      by simp
    from Suc.IH [OF Suc.prems(1) j nt Suc.prems(4) this] Suc.prems(3)
    show ?thesis by (simp add: lookupReference.simps [of c name])
  qed
qed

text \<open>One named reference decoded by \<open>parseTextData\<close>: the source starts with \<open>&\<close> and the
  name, which is the longest one of the table that matches there.\<close>

lemma parseTextData_named_reference:
  assumes src: "source c = 38 # name @ rest"
    and first: "case name of [] \<Rightarrow> False | d # ds \<Rightarrow> isDigit d \<or> isLetter d"
    and mx: "length name \<le> maxCRNameLength c"
    and val: "lookupProperty (namedCharacterReferences (options c)) name = Some val" "val \<noteq> []"
    and longest: "\<forall>k. length name < k \<and> k \<le> maxCRNameLength c \<longrightarrow>
           \<not> isTruthy (lookupProperty (namedCharacterReferences (options c))
                          (take k (name @ rest)))"
    and mode: "mode \<noteq> RAWTEXT" "mode \<noteq> CDATA"
  shows "\<exists>c'. parseTextData c (1 + length name) mode =
           Inr (if mode = ATTRIBUTE_VALUE \<and> \<not> endsWithChar name 59 \<and>
                   (case rest of [] \<Rightarrow> False | ch # r \<Rightarrow> ch = 61 \<or> isLetter ch \<or> isDigit ch)
                then 38 # name else val, c') \<and>
           map err_code (errors c') = map err_code (errors c) @
             (if endsWithChar name 59 \<or>
                 mode = ATTRIBUTE_VALUE \<and>
                 (case rest of [] \<Rightarrow> False | ch # r \<Rightarrow> ch = 61 \<or> isLetter ch \<or> isDigit ch)
              then [] else [MISSING_SEMICOLON_AFTER_CHARACTER_REFERENCE]) \<and>
           advanced c (1 + length name) c'"
proof -
  let ?keep = "mode = ATTRIBUTE_VALUE \<and> \<not> endsWithChar name 59 \<and>
                 (case rest of [] \<Rightarrow> False | ch # r \<Rightarrow> ch = 61 \<or> isLetter ch \<or> isDigit ch)"
  from first obtain d ds where name: "name = d # ds" and d: "isDigit d \<or> isLetter d"
    by (cases name) auto
  from d have d35: "d \<noteq> 35" by (auto simp: isDigit_def isLetter_def)
  have eh: "execHead (source c) = Some (0, [38])"
    by (simp add: src name d35)
  have c1: "charAt (source c) 1 = Some d"
    by (simp add: src name charAt_def)
  have sub: "substr (source c) 1 k = take k (name @ rest)" for k
    by (simp add: src substr_def)
  have sn: "substr (source c) 1 (length name) = name"
    unfolding sub by simp
  have "0 < length name" by (simp add: name)
  moreover have "\<not> isTruthy None" by (simp add: isTruthy_def)
  moreover have "isTruthy (lookupProperty (namedCharacterReferences (options c))
                    (substr (source c) 1 (length name)))"
    unfolding sn using val by (simp add: isTruthy_def)
  moreover have "\<forall>k. length name < k \<and> k \<le> maxCRNameLength c \<longrightarrow>
           \<not> isTruthy (lookupProperty (namedCharacterReferences (options c))
                          (substr (source c) 1 k))"
    unfolding sub using longest .
  ultimately have "lookupReference c [] None (maxCRNameLength c) =
           (substr (source c) 1 (length name),
            lookupProperty (namedCharacterReferences (options c))
              (substr (source c) 1 (length name)))"
    using mx by (intro lookupReference_longest) simp_all
  then have lk: "lookupReference c [] None (maxCRNameLength c) = (name, Some val)"
    unfolding sn val .
  have nx: "charAt (source c) (Suc (length name)) = (case rest of [] \<Rightarrow> None | ch # r \<Rightarrow> Some ch)"
    by (simp add: src charAt_def)
  have "1 + length name \<le> length (source c)" by (simp add: src)
  from advanceBy_ok [OF this] obtain c4 where
    c4: "advanceBy c (1 + length name) = Inr c4" "advanced c (1 + length name) c4"
        "errors c4 = errors c" by blast
  let ?c' = "if ?keep \<or> endsWithChar name 59 then c4
             else emitError c4 MISSING_SEMICOLON_AFTER_CHARACTER_REFERENCE 0"
  let ?t = "if ?keep then 38 # name else val"
  have nr: "parseNamedReference c mode = Inr (?t, ?c')"
    unfolding parseNamedReference_def lk c1
    using d val(2) c4(1) by (auto simp: isTruthy_def nx split: list.splits)
  have off: "offset ?c' = offset c + (1 + length name)"
    using c4(2) by (simp add: advanced_def)
  have l2: "parseTextData_loop ?c' (offset c + (1 + length name)) mode t = Inr (t, ?c')" for t
    by (subst parseTextData_loop.simps) (simp only: off, simp)
  have "parseTextData_loop c (offset c + (1 + length name)) mode [] = Inr (?t, ?c')"
    by (subst parseTextData_loop.simps) (simp add: eh nr l2 slice_def del: One_nat_def)
  then have "parseTextData c (1 + length name) mode = Inr (?t, ?c')"
    using mode by (simp add: parseTextData_def)
  moreover have "map err_code (errors ?c') = map err_code (errors c) @
             (if endsWithChar name 59 \<or>
                 mode = ATTRIBUTE_VALUE \<and>
                 (case rest of [] \<Rightarrow> False | ch # r \<Rightarrow> ch = 61 \<or> isLetter ch \<or> isDigit ch)
              then [] else [MISSING_SEMICOLON_AFTER_CHARACTER_REFERENCE])"
    using c4(3) by auto
  moreover have "advanced c (1 + length name) ?c'"
    using c4(2) by simp
  ultimately show ?thesis by blast
qed




section \<open>End-to-end scenarios\<close>

text \<open>What the scenarios say of an attribute or a directive: for an attribute its name and
  the content of its value; for a directive its name, the content of its argument, its
  modifiers, and the content and \<open>isStatic\<close> of its expression.\<close>

definition propSummary ::
  "Prop \<Rightarrow> (jsstring \<times> jsstring option) +
            (jsstring \<times> jsstring option \<times> jsstring list \<times> (jsstring \<times> bool) option)" where
  "propSummary p =
     (case p of
        ATTRIBUTE n v l \<Rightarrow> Inl (n, map_option text_content v)
      | DIRECTIVE n e a ms l \<Rightarrow>
          Inr (n, map_option exp_content a, ms,
               map_option (\<lambda>x. (exp_content x, exp_isStatic x)) e))"

text \<open>
  C6. Parsing \<open>{{ foo }}\<close> with the default options yields one root child, an interpolation
  whose expression has content \<open>foo\<close>, is not static, and spans the offsets 3 to 6; no
  diagnostic is emitted. This holds in every build and for every \<open>toLowerCase\<close>.
\<close>

theorem parse_interpolation_foo:
  "parse (Suc (length (str ''{{ foo }}''))) isDev lower (str ''{{ foo }}'') defaultParserOptions =
     Some (Inr (ROOT
       [INTERPOLATION
          (SIMPLE_EXPRESSION (str ''foo'') False
             \<lparr>loc_start = \<lparr>offset = 3, line = 1, column = 4\<rparr>,
              loc_end = \<lparr>offset = 6, line = 1, column = 7\<rparr>,
              loc_source = str ''foo''\<rparr>)
          \<lparr>loc_start = \<lparr>offset = 0, line = 1, column = 1\<rparr>,
           loc_end = \<lparr>offset = 9, line = 1, column = 10\<rparr>,
           loc_source = str ''{{ foo }}''\<rparr>]
       \<lparr>loc_start = \<lparr>offset = 0, line = 1, column = 1\<rparr>,
        loc_end = \<lparr>offset = 9, line = 1, column = 10\<rparr>,
        loc_source = str ''{{ foo }}''\<rparr>, []))"
  by (simp add: parser_eval cong: let_weak_cong)

text \<open>
  C5. Parsing \<open><MyComp :prop="x" @click.stop="f" v-if="ok"/>\<close> yields one root child: an
  element with tag \<open>MyComp\<close>, of type COMPONENT, self-closing, without children, and with
  exactly three directives, in order: \<open>bind\<close> with argument \<open>prop\<close> and expression \<open>x\<close>;
  \<open>on\<close> with argument \<open>click\<close>, modifier \<open>stop\<close> and expression \<open>f\<close>; \<open>if\<close> without argument
  and with expression \<open>ok\<close>. No expression is static, and no diagnostic is emitted.
\<close>

theorem parse_component_directives:
  "(case parse (Suc (length (str ''<MyComp :prop=\"x\" @click.stop=\"f\" v-if=\"ok\"/>''))) isDev lower
           (str ''<MyComp :prop=\"x\" @click.stop=\"f\" v-if=\"ok\"/>'') defaultParserOptions of
      Some (Inr (ROOT [ELEMENT n t ty ps sc cs l] rl, es)) \<Rightarrow>
        Some (t, ty, sc, cs, map propSummary ps, es)
    | _ \<Rightarrow> None) =
   Some (str ''MyComp'', ElementTypes_COMPONENT, True, [],
         [Inr (str ''bind'', Some (str ''prop''), [], Some (str ''x'', False)),
          Inr (str ''on'', Some (str ''click''), [str ''stop''], Some (str ''f'', False)),
          Inr (str ''if'', None, [], Some (str ''ok'', False))],
         [])"
  by (simp add: parser_eval propSummary_def cong: let_weak_cong)

text \<open>Scenario 7: \<open><div a="1" a="2">\<close> keeps both attributes and reports the duplicate once
  (and the missing end tag).\<close>

lemma parse_duplicate_attribute:
  "(case parse (Suc (length (str ''<div a=\"1\" a=\"2\">''))) isDev lower
           (str ''<div a=\"1\" a=\"2\">'') defaultParserOptions of
      Some (Inr (ROOT [ELEMENT n t ty ps sc cs l] rl, es)) \<Rightarrow>
        Some (t, map propSummary ps, map err_code es)
    | _ \<Rightarrow> None) =
   Some (str ''div'',
         [Inl (str ''a'', Some (str ''1'')), Inl (str ''a'', Some (str ''2''))],
         [DUPLICATE_ATTRIBUTE, X_MISSING_END_TAG])"
  by (simp add: parser_eval propSummary_def cong: let_weak_cong)

section \<open>Termination of parse\<close>




section \<open>Sibling text nodes\<close>

text \<open>Two nodes that are both TEXT, the second starting at the offset where the first
  ends; a list with no two such neighbours; a node all of whose lists of children, at any
  depth, are such lists.\<close>

definition touching :: "TemplateChildNode \<Rightarrow> TemplateChildNode \<Rightarrow> bool" where
  "touching a b =
     (case (a, b) of
        (TEXT p, TEXT t) \<Rightarrow> offset (loc_end (text_loc p)) = offset (loc_start (text_loc t))
      | _ \<Rightarrow> False)"

fun noTouchingText :: "TemplateChildNode list \<Rightarrow> bool" where
  "noTouchingText (a # b # xs) = (\<not> touching a b \<and> noTouchingText (b # xs))"
| "noTouchingText xs = True"

fun wellMerged :: "TemplateChildNode \<Rightarrow> bool" where
  "wellMerged (ELEMENT n t ty ps sc cs l) = (noTouchingText cs \<and> list_all wellMerged cs)"
| "wellMerged nd = True"

definition mergedList :: "TemplateChildNode list \<Rightarrow> bool" where
  "mergedList cs = (noTouchingText cs \<and> list_all wellMerged cs)"

lemma noTouchingText_snoc:
  "noTouchingText (xs @ [x]) =
     (noTouchingText xs \<and> (case lastOf xs of None \<Rightarrow> True | Some p \<Rightarrow> \<not> touching p x))"
  by (induction xs rule: noTouchingText.induct) (auto simp: lastOf_def)

lemma noTouchingText_butlast: "noTouchingText xs \<Longrightarrow> noTouchingText (butlast xs)"
  by (induction xs rule: noTouchingText.induct) (auto split: if_splits)

lemma lastOf_butlast_touching:
  "noTouchingText xs \<Longrightarrow> lastOf xs = Some p \<Longrightarrow> lastOf (butlast xs) = Some q \<Longrightarrow>
   \<not> touching q p"
  by (induction xs rule: noTouchingText.induct) (auto simp: lastOf_def split: if_splits)

lemma touching_mergeText:
  "touching q (TEXT (mergeText p t)) = touching q (TEXT p)"
  by (simp add: touching_def mergeText_def split: TemplateChildNode.splits)

lemma list_all_butlast: "list_all P xs \<Longrightarrow> list_all P (butlast xs)"
  by (induction xs) auto

lemma pushNode_mergedList:
  assumes "mergedList nodes" "wellMerged nd"
  shows "mergedList (pushNode c nodes nd)"
proof -
  have "noTouchingText (butlast nodes @ [TEXT (mergeText p t)])"
    if "lastOf nodes = Some (TEXT p)" for p t
  proof -
    have "\<not> touching q (TEXT p)" if "lastOf (butlast nodes) = Some q" for q
      using assms(1) \<open>lastOf nodes = Some (TEXT p)\<close> that
      unfolding mergedList_def by (blast dest: lastOf_butlast_touching)
    with assms(1) show ?thesis
      by (auto simp: noTouchingText_snoc mergedList_def touching_mergeText
          intro: noTouchingText_butlast split: option.splits)
  qed
  moreover have "noTouchingText (nodes @ [nd])"
    if "\<And>p. lastOf nodes = Some p \<Longrightarrow> \<not> touching p nd"
    using that assms(1) by (auto simp: noTouchingText_snoc mergedList_def split: option.splits)
  ultimately show ?thesis
    using assms
    unfolding pushNode_def mergedList_def
    by (auto simp: touching_def list_all_butlast
        split: option.splits TemplateChildNode.splits if_splits)
qed

lemma foldl_pushNode_mergedList:
  "mergedList nodes \<Longrightarrow> list_all wellMerged nds \<Longrightarrow> mergedList (foldl (pushNode c) nodes nds)"
  by (induction nds arbitrary: nodes) (auto intro: pushNode_mergedList)

definition merging :: "childrenParser \<Rightarrow> bool" where
  "merging P = (\<forall>c m a r c'. P c m a = Some (Inr (r, c')) \<longrightarrow> mergedList r)"

lemma mergingD: "merging P \<Longrightarrow> P c m a = Some (Inr x) \<Longrightarrow> mergedList (fst x)"
  unfolding merging_def by (cases x) (metis fst_conv)

lemma parseTag_wellMerged: "parseTag c ty p = Inr (el, c') \<Longrightarrow> wellMerged el"
  unfolding parseTag_def
  by (auto simp: andThen_eq_Inr split: option.splits if_splits prod.splits)

lemma parseComment_wellMerged: "parseComment c = Inr (nd, c') \<Longrightarrow> wellMerged nd"
  unfolding parseComment_def
  by (auto simp: andThen_eq_Inr split: option.splits if_splits prod.splits)

lemma parseBogusComment_wellMerged: "parseBogusComment c = Inr (nd, c') \<Longrightarrow> wellMerged nd"
  unfolding parseBogusComment_def
  by (auto simp: andThen_eq_Inr split: option.splits if_splits prod.splits)

lemma parseInterpolation_wellMerged:
  "parseInterpolation c mode = Inr (Some nd, c') \<Longrightarrow> wellMerged nd"
  unfolding parseInterpolation_def interpolationNode_def
  by (auto simp: andThen_eq_Inr Let_def split: option.splits if_splits prod.splits)

lemma closeElement_wellMerged:
  "closeElement c p el cs = Inr (nd, c') \<Longrightarrow> mergedList cs \<Longrightarrow> wellMerged nd"
  unfolding closeElement_def mergedList_def
  by (auto simp: andThen_eq_Inr split: if_splits)

lemma parseElement_wellMerged:
  assumes "merging P" "parseElement P c anc = Some (Inr (nd, c'))"
  shows "wellMerged nd"
proof -
  have "wellMerged nd"
    if "P c1 m a = Some (Inr x)" "closeElement (snd x) p el (fst x) = Inr (nd, c')"
    for c1 m a x p el
    using mergingD [OF assms(1) that(1)] that(2) by (blast intro: closeElement_wellMerged)
  then show ?thesis
    using assms(2) unfolding parseElement_def
    by (auto simp: andThenF_eq_Some_Inr split: if_splits sum.splits prod.splits
        intro: parseTag_wellMerged)
qed

lemma parseCDATA_merged:
  assumes "merging P" "parseCDATA P c anc = Some (Inr (nds, c'))"
  shows "mergedList nds"
  using assms(2) unfolding parseCDATA_def
  by (auto simp: andThenF_eq_Some_Inr andThen_eq_Inr split: if_splits sum.splits
      dest: mergingD [OF assms(1)])

definition childMerged :: "ChildResult \<Rightarrow> bool" where
  "childMerged r =
     (case r of OneNode nd \<Rightarrow> wellMerged nd | ManyNodes nds \<Rightarrow> list_all wellMerged nds
      | _ \<Rightarrow> True)"

lemma oneNode_merged:
  "oneNode m = Some (Inr (r, c')) \<Longrightarrow> (\<And>nd. m = Inr (nd, c') \<Longrightarrow> wellMerged nd) \<Longrightarrow>
   childMerged r"
  unfolding oneNode_def childMerged_def by (auto simp: andThen_eq_Inr)

lemma parseChild_merged:
  assumes "merging P" "parseChild P c mode anc = Some (Inr (r, c'))"
  shows "childMerged r"
proof -
  have e: "childMerged r"
    if "andThenF (parseElement P c anc) (\<lambda>r. Some (Inr (OneNode (fst r), snd r))) =
          Some (Inr (r, c'))"
    using that
    by (auto simp: andThenF_eq_Some_Inr childMerged_def
        dest: parseElement_wellMerged [OF assms(1)])
  have d: "childMerged r"
    if "andThenF (parseCDATA P c anc) (\<lambda>r. Some (Inr (ManyNodes (fst r), snd r))) =
          Some (Inr (r, c'))"
    using that
    by (auto simp: andThenF_eq_Some_Inr childMerged_def mergedList_def
        dest: parseCDATA_merged [OF assms(1)])
  have i: "childMerged (case a of None \<Rightarrow> NoNode | Some x \<Rightarrow> OneNode x)"
    if "parseInterpolation c mode = Inr (a, c')" for a
    using that parseInterpolation_wellMerged [of c mode _ c']
    by (auto simp: childMerged_def split: option.splits)
  have n: "childMerged NoNode" "childMerged Continue" by (simp_all add: childMerged_def)
  show ?thesis
    using assms(2) unfolding parseChild_def
    by (auto simp: andThen_eq_Inr n split: if_splits
        dest: e d intro: i
        elim!: oneNode_merged intro: parseComment_wellMerged parseBogusComment_wellMerged)
qed

lemma pushChild_merged:
  assumes "mergedList nodes" "childMerged (fst r)" "pushChild mode nodes r = Inr (res, c')"
  shows "mergedList res"
  using assms unfolding pushChild_def childMerged_def
  by (auto simp: andThen_eq_Inr split: ChildResult.splits
      intro!: pushNode_mergedList foldl_pushNode_mergedList)

lemma parseChildren_loop_merged:
  "mergedList nodes \<Longrightarrow> parseChildren_loop fuel c mode anc nodes = Some (Inr (res, c')) \<Longrightarrow>
   mergedList res"
proof (induction fuel arbitrary: c mode anc nodes res c')
  case 0
  then show ?case by simp
next
  case (Suc fuel)
  have P: "merging (parseChildren fuel)"
    unfolding merging_def parseChildren_def
    using Suc.IH [of "[]"] by (auto simp: mergedList_def)
  show ?case
  proof (cases "isEnd c mode anc")
    case True
    with Suc.prems show ?thesis by (simp add: parseChildren_loop_Suc)
  next
    case False
    with Suc.prems obtain r nc where
      r: "parseChild (parseChildren fuel) c mode anc = Some (Inr r)"
      and p: "pushChild mode nodes r = Inr nc"
      and l: "parseChildren_loop fuel (snd nc) mode anc (fst nc) = Some (Inr (res, c'))"
      by (auto simp: parseChildren_loop_Suc andThenF_eq_Some_Inr split: if_splits)
    from parseChild_merged [OF P, of c mode anc "fst r" "snd r"] r
    have "childMerged (fst r)" by simp
    from pushChild_merged [OF Suc.prems(1) this, of mode "fst nc" "snd nc"] p
    have "mergedList (fst nc)" by simp
    from Suc.IH [OF this l] show ?thesis .
  qed
qed




end
